theory Spec2Isabelle
  imports Complex_Main
begin

section \<open>Python and numpy primitives used by the constructor\<close>

text \<open>
  The module \<^verbatim>\<open>liegr.py\<close> builds, in \<^verbatim>\<open>liegr.__init__\<close>, a basis \<^verbatim>\<open>T\<close> of the Lie algebra
  so(n) and its structure constants \<^verbatim>\<open>gamma\<close>, both as numpy arrays filled by index
  assignment inside \<^verbatim>\<open>for\<close> loops. The arrays are modelled as nested lists, Python
  integers as \<open>int\<close>, Python floats as exact reals, and every exception that the
  constructor's own statements can raise as a value of \<open>error\<close>.
\<close>

datatype error = ValueError | IndexError | ZeroDivisionError | InvalidArgumentError

type_synonym matrix = "real list list"
type_synonym tensor3 = "real list list list"

text \<open>Sequencing of statements that may raise.\<close>

definition bind_err :: "error + 'a \<Rightarrow> ('a \<Rightarrow> error + 'b) \<Rightarrow> error + 'b" where
  "bind_err m f = (case m of Inl e \<Rightarrow> Inl e | Inr x \<Rightarrow> f x)"

text \<open>\<^verbatim>\<open>int(x)\<close> on a float truncates towards zero.\<close>

definition py_int :: "real \<Rightarrow> int" where
  "py_int x = (if 0 \<le> x then \<lfloor>x\<rfloor> else \<lceil>x\<rceil>)"

text \<open>\<^verbatim>\<open>np.zeros([a, b, c])\<close> raises \<^verbatim>\<open>ValueError\<close> on a negative dimension.\<close>

definition np_zeros3 :: "int \<Rightarrow> int \<Rightarrow> int \<Rightarrow> error + tensor3" where
  "np_zeros3 a b c =
     (if a < 0 \<or> b < 0 \<or> c < 0 then Inl ValueError
      else Inr (replicate (nat a) (replicate (nat b) (replicate (nat c) 0))))"

text \<open>An integer index into an axis of the given length: negative indices count from
  the end, anything else out of range raises \<^verbatim>\<open>IndexError\<close>.\<close>

definition np_index :: "int \<Rightarrow> nat \<Rightarrow> error + nat" where
  "np_index k len =
     (if 0 \<le> k \<and> k < int len then Inr (nat k)
      else if - int len \<le> k \<and> k < 0 then Inr (nat (k + int len))
      else Inl IndexError)"

text \<open>\<^verbatim>\<open>A[I][i,j]\<close> read and \<^verbatim>\<open>A[I][i,j] = v\<close> (also written \<^verbatim>\<open>A[I,i,j] = v\<close>).\<close>

definition get3 :: "tensor3 \<Rightarrow> int \<Rightarrow> int \<Rightarrow> int \<Rightarrow> error + real" where
  "get3 A I i j =
     bind_err (np_index I (length A)) (\<lambda>I'.
     bind_err (np_index i (length (A ! I'))) (\<lambda>i'.
     bind_err (np_index j (length (A ! I' ! i'))) (\<lambda>j'.
       Inr (A ! I' ! i' ! j'))))"

definition set3 :: "tensor3 \<Rightarrow> int \<Rightarrow> int \<Rightarrow> int \<Rightarrow> real \<Rightarrow> error + tensor3" where
  "set3 A I i j v =
     bind_err (np_index I (length A)) (\<lambda>I'.
     bind_err (np_index i (length (A ! I'))) (\<lambda>i'.
     bind_err (np_index j (length (A ! I' ! i'))) (\<lambda>j'.
       Inr (A[I' := (A ! I')[i' := (A ! I' ! i')[j' := v]]]))))"

text \<open>A \<^verbatim>\<open>for x in xs\<close> loop over a state; an exception in the body ends the loop.\<close>

fun for_loop :: "nat list \<Rightarrow> (nat \<Rightarrow> 's \<Rightarrow> error + 's) \<Rightarrow> 's \<Rightarrow> error + 's" where
  "for_loop [] body s = Inr s"
| "for_loop (x # xs) body s = bind_err (body x s) (for_loop xs body)"

section \<open>The generators (lines 60--67)\<close>

text \<open>
  \<^verbatim>\<open>i = int(math.ceil(-0.5+n-np.sqrt((n-0.5)**2 - 2*(I+1))) - 1.)\<close>.
  A negative radicand makes \<^verbatim>\<open>np.sqrt\<close> return NaN, on which \<^verbatim>\<open>math.ceil\<close> raises
  \<^verbatim>\<open>ValueError\<close>. Floats are taken as exact reals.
\<close>

definition row_of :: "int \<Rightarrow> nat \<Rightarrow> error + int" where
  "row_of n I =
     (let d = (real_of_int n - 0.5)\<^sup>2 - 2 * (real I + 1)
      in if d < 0 then Inl ValueError
         else Inr (py_int (real_of_int \<lceil>- 0.5 + real_of_int n - sqrt d\<rceil> - 1)))"

text \<open>
  \<^verbatim>\<open>dist = (I+1.) - i*(2*n-i-1)/2\<close> and \<^verbatim>\<open>j = int(i+dist)\<close>. The source writes the
  three lines out once for \<^verbatim>\<open>T\<close> and twice for \<^verbatim>\<open>gamma\<close>; they are one function here.
\<close>

definition pair_of :: "int \<Rightarrow> nat \<Rightarrow> error + (int \<times> int)" where
  "pair_of n I =
     bind_err (row_of n I) (\<lambda>i.
       let dist = (real I + 1) - real_of_int (i * (2 * n - i - 1)) / 2;
           j = py_int (real_of_int i + dist)
       in Inr (i, j))"

text \<open>The body of the loop: \<^verbatim>\<open>T[I][i,j] = (-1.)**(i+j+1.)\<close>, then
  \<^verbatim>\<open>T[I][j,i] = -T[I][i,j]\<close>.\<close>

definition gen_step :: "int \<Rightarrow> nat \<Rightarrow> tensor3 \<Rightarrow> error + tensor3" where
  "gen_step n I T =
     bind_err (pair_of n I) (\<lambda>(i, j).
     bind_err (set3 T (int I) i j ((- 1) powi (i + j + 1))) (\<lambda>T1.
     bind_err (get3 T1 (int I) i j) (\<lambda>v.
       set3 T1 (int I) j i (- v))))"

text \<open>\<^verbatim>\<open>self.N = int(n*(n-1)/2.)\<close>\<close>

definition dim_N :: "int \<Rightarrow> int" where
  "dim_N n = py_int (real_of_int (n * (n - 1)) / 2)"

definition build_T :: "int \<Rightarrow> error + tensor3" where
  "build_T n =
     bind_err (np_zeros3 (dim_N n) n n) (for_loop [0..<nat (dim_N n)] (gen_step n))"

section \<open>The structure constants (lines 73--101)\<close>

text \<open>
  \<^verbatim>\<open>K = (b - a + int( a*(n - 0.5*(a+1)) ) - 1)%self.N\<close>, the expression the four cases
  share, with \<open>(a, b)\<close> the pair of indices each case names.
\<close>

definition pair_index :: "int \<Rightarrow> int \<Rightarrow> int \<Rightarrow> int \<Rightarrow> error + int" where
  "pair_index n N a b =
     (if N = 0 then Inl ZeroDivisionError
      else Inr ((b - a + py_int (real_of_int a * (real_of_int n - 0.5 * (real_of_int a + 1))) - 1) mod N))"

text \<open>\<^verbatim>\<open>self.gamma[I,J,K] = v\<close> followed by \<^verbatim>\<open>self.gamma[J,I,K] = -v\<close>.\<close>

definition set_both :: "nat \<Rightarrow> nat \<Rightarrow> real \<Rightarrow> int \<Rightarrow> tensor3 \<Rightarrow> error + tensor3" where
  "set_both I J v K g =
     bind_err (set3 g (int I) (int J) K v) (\<lambda>g1. set3 g1 (int J) (int I) K (- v))"

text \<open>One \<^verbatim>\<open>if cond: K = ...; gamma[I,J,K] = v; gamma[J,I,K] = -v\<close> block.\<close>

definition if_block :: "bool \<Rightarrow> error + int \<Rightarrow> nat \<Rightarrow> nat \<Rightarrow> real \<Rightarrow> tensor3 \<Rightarrow> error + tensor3" where
  "if_block c K I J v g = (if c then bind_err K (\<lambda>k. set_both I J v k g) else Inr g)"

definition gamma_step :: "int \<Rightarrow> int \<Rightarrow> nat \<Rightarrow> nat \<Rightarrow> tensor3 \<Rightarrow> error + tensor3" where
  "gamma_step n N I J g =
     bind_err (pair_of n I) (\<lambda>(iI, jI).
     bind_err (pair_of n J) (\<lambda>(iJ, jJ).
       if iI = iJ \<and> jI = jJ then Inr g
       else
         bind_err (if_block (iI = iJ) (pair_index n N jI jJ) I J 1 g) (\<lambda>g1.
         bind_err (if_block (jI = jJ) (pair_index n N iI iJ) I J 1 g1) (\<lambda>g2.
         bind_err (if_block (jI = iJ) (pair_index n N iI jJ) I J (- 1) g2) (\<lambda>g3.
           if_block (iI = jJ) (pair_index n N jI iJ) I J (- 1) g3)))))"

text \<open>\<^verbatim>\<open>for I in range(self.N): for J in range(self.N)[I+1:]: ...\<close>\<close>

definition build_gamma :: "int \<Rightarrow> error + tensor3" where
  "build_gamma n =
     bind_err (np_zeros3 (dim_N n) (dim_N n) (dim_N n))
       (for_loop [0..<nat (dim_N n)] (\<lambda>I.
          for_loop [Suc I..<nat (dim_N n)] (\<lambda>J. gamma_step n (dim_N n) I J)))"

text \<open>The part of the object that the constructor has set when line 101 is reached.\<close>

record liegr =
  liegr_N :: int
  liegr_n :: int
  liegr_T :: tensor3
  liegr_gamma :: tensor3

definition liegr_init :: "int \<Rightarrow> error + liegr" where
  "liegr_init n =
     bind_err (build_T n) (\<lambda>T.
     bind_err (build_gamma n) (\<lambda>g.
       Inr \<lparr>liegr_N = dim_N n, liegr_n = n, liegr_T = T, liegr_gamma = g\<rparr>))"

section \<open>Matrices as nested lists\<close>

text \<open>
  The operations of numpy and TensorFlow that the module applies to its arrays, on one
  matrix at a time. A batched operation (a leading axis \<^verbatim>\<open>i\<close> in an \<^verbatim>\<open>einsum\<close>
  signature) applies the operation to every item of the batch.
\<close>

definition mat :: "nat \<Rightarrow> nat \<Rightarrow> (nat \<Rightarrow> nat \<Rightarrow> real) \<Rightarrow> matrix" where
  "mat r c f = map (\<lambda>i. map (\<lambda>j. f i j) [0..<c]) [0..<r]"

definition is_mat :: "nat \<Rightarrow> nat \<Rightarrow> matrix \<Rightarrow> bool" where
  "is_mat r c A = (length A = r \<and> list_all (\<lambda>row. length row = c) A)"

definition ncols :: "matrix \<Rightarrow> nat" where
  "ncols A = (case A of [] \<Rightarrow> 0 | row # _ \<Rightarrow> length row)"

text \<open>\<^verbatim>\<open>tf.eye(n)\<close>\<close>

definition eye :: "nat \<Rightarrow> matrix" where
  "eye n = mat n n (\<lambda>i j. if i = j then 1 else 0)"

text \<open>\<^verbatim>\<open>tf.matmul(A, B)\<close>\<close>

definition matmul :: "matrix \<Rightarrow> matrix \<Rightarrow> matrix" where
  "matmul A B = mat (length A) (ncols B) (\<lambda>i j. \<Sum>k<length B. A ! i ! k * B ! k ! j)"

definition mat_transpose :: "matrix \<Rightarrow> matrix" where
  "mat_transpose A = mat (ncols A) (length A) (\<lambda>i j. A ! j ! i)"

text \<open>Elementwise \<^verbatim>\<open>A + B\<close>, \<^verbatim>\<open>A - B\<close>, \<^verbatim>\<open>-A\<close> and \<^verbatim>\<open>c * A\<close> on arrays of one shape.\<close>

definition mat_add :: "matrix \<Rightarrow> matrix \<Rightarrow> matrix" where
  "mat_add A B = map2 (map2 (+)) A B"

definition mat_sub :: "matrix \<Rightarrow> matrix \<Rightarrow> matrix" where
  "mat_sub A B = map2 (map2 (-)) A B"

definition mat_neg :: "matrix \<Rightarrow> matrix" where
  "mat_neg A = map (map uminus) A"

definition mat_scale :: "real \<Rightarrow> matrix \<Rightarrow> matrix" where
  "mat_scale c A = map (map ((*) c)) A"

text \<open>\<^verbatim>\<open>einsum('j,jkl->kl', x, T)\<close>: the item of \<^verbatim>\<open>einsum('ij,jkl->ikl', x, T)\<close>. The
  shape \<open>n \<times> n\<close> of the result is the static shape of the last two axes of \<^verbatim>\<open>T\<close>.\<close>

definition einsum_j_jkl :: "nat \<Rightarrow> real list \<Rightarrow> tensor3 \<Rightarrow> matrix" where
  "einsum_j_jkl n x T = mat n n (\<lambda>k l. \<Sum>j<length T. x ! j * T ! j ! k ! l)"

text \<open>\<^verbatim>\<open>einsum('jk,ljk->l', X, T)\<close>: the item of \<^verbatim>\<open>einsum('ijk,ljk->il', X, T)\<close>, which
  numpy also writes \<^verbatim>\<open>einsum('ij,kij->k', X, T)\<close>.\<close>

definition einsum_jk_ljk :: "nat \<Rightarrow> matrix \<Rightarrow> tensor3 \<Rightarrow> real list" where
  "einsum_jk_ljk n X T = map (\<lambda>l. \<Sum>j<n. \<Sum>k<n. X ! j ! k * T ! l ! j ! k) [0..<length T]"

text \<open>\<^verbatim>\<open>einsum('jk,jl->kl', A, B)\<close>: the item of \<^verbatim>\<open>einsum('ijk,ijl->ikl', A, B)\<close>.\<close>

definition einsum_jk_jl :: "matrix \<Rightarrow> matrix \<Rightarrow> matrix" where
  "einsum_jk_jl A B = mat (ncols A) (ncols B) (\<lambda>k l. \<Sum>j<length A. A ! j ! k * B ! j ! l)"

section \<open>Auxiliary functions of the verification\<close>

text \<open>An integer square root, to evaluate \<open>row_of\<close> without real arithmetic.\<close>

primrec isqrt_below :: "nat \<Rightarrow> nat \<Rightarrow> nat" where
  "isqrt_below e 0 = 0"
| "isqrt_below e (Suc k) = (if (Suc k)\<^sup>2 \<le> e then Suc k else isqrt_below e k)"

definition isqrt :: "nat \<Rightarrow> nat" where
  "isqrt e = isqrt_below e e"

text \<open>The position of the pair \<open>(i, j)\<close>, \<open>i < j\<close>, in the row-major enumeration of the
  upper triangle of an \<open>n \<times> n\<close> matrix: \<open>tri n i\<close> pairs lie in the rows above row \<open>i\<close>.\<close>

definition tri :: "int \<Rightarrow> int \<Rightarrow> int" where
  "tri n i = i * (2 * n - i - 1) div 2"

definition idx :: "int \<Rightarrow> int \<Rightarrow> int \<Rightarrow> int" where
  "idx n i j = tri n i + (j - i - 1)"

text \<open>The matrix that \<open>gen_step\<close> leaves at position \<open>I\<close> when the pair of \<open>I\<close> is
  \<open>(i, j)\<close>: the sign \<open>(-1)\<^sup>i\<^sup>+\<^sup>j\<^sup>+\<^sup>1\<close> at \<open>(i, j)\<close>, its negation at \<open>(j, i)\<close>, zero elsewhere.\<close>

definition gen_sign :: "int \<Rightarrow> int \<Rightarrow> real" where
  "gen_sign i j = (- 1) powi (i + j + 1)"

definition gen_mat :: "nat \<Rightarrow> int \<Rightarrow> int \<Rightarrow> matrix" where
  "gen_mat n i j =
     mat n n (\<lambda>a b. if int a = i \<and> int b = j then gen_sign i j
                       else if int a = j \<and> int b = i then - gen_sign i j else 0)"

text \<open>The \<open>I\<close>-th generator, as the loop leaves it.\<close>

definition generator :: "int \<Rightarrow> nat \<Rightarrow> matrix" where
  "generator n I = (case pair_of n I of Inl e \<Rightarrow> [] | Inr (i, j) \<Rightarrow> gen_mat (nat n) i j)"

text \<open>The pair of \<open>I\<close> as a total function, for statements about indices in range.\<close>

definition the_pair :: "int \<Rightarrow> nat \<Rightarrow> int \<times> int" where
  "the_pair n I = (case pair_of n I of Inl e \<Rightarrow> (0, 0) | Inr p \<Rightarrow> p)"

text \<open>The one assignment pair that \<open>gamma_step\<close> makes for \<open>I < J\<close>, if any: the index \<open>K\<close>
  and the value stored at \<open>[I, J, K]\<close>.\<close>

definition sc_entry :: "int \<Rightarrow> int \<times> int \<Rightarrow> int \<times> int \<Rightarrow> (int \<times> real) option" where
  "sc_entry n p q =
     (case (p, q) of ((iI, jI), (iJ, jJ)) \<Rightarrow>
        if iI = iJ then Some (idx n jI jJ, 1)
        else if jI = jJ then Some (idx n iI iJ, 1)
        else if jI = iJ then Some (idx n iI jJ, - 1)
        else None)"

definition upd3 :: "tensor3 \<Rightarrow> nat \<Rightarrow> nat \<Rightarrow> nat \<Rightarrow> real \<Rightarrow> tensor3" where
  "upd3 g I J K v = g[I := (g ! I)[J := (g ! I ! J)[K := v]]]"

definition shape3 :: "nat \<Rightarrow> tensor3 \<Rightarrow> bool" where
  "shape3 N g = (length g = N \<and> (\<forall>I<N. length (g ! I) = N \<and> (\<forall>J<N. length (g ! I ! J) = N)))"

definition gamma_upd :: "int \<Rightarrow> nat \<Rightarrow> nat \<Rightarrow> tensor3 \<Rightarrow> tensor3" where
  "gamma_upd n I J g =
     (case sc_entry n (the_pair n I) (the_pair n J) of
        None \<Rightarrow> g
      | Some (K, v) \<Rightarrow> upd3 (upd3 g I J (nat K) v) J I (nat K) (- v))"

text \<open>The value that the loops leave at \<open>gamma[I, J, K]\<close> for \<open>I < J\<close>, and for all
  \<open>I\<close>, \<open>J\<close>.\<close>

definition sc :: "int \<Rightarrow> nat \<Rightarrow> nat \<Rightarrow> nat \<Rightarrow> real" where
  "sc n I J K =
     (case sc_entry n (the_pair n I) (the_pair n J) of
        None \<Rightarrow> 0
      | Some (K', v) \<Rightarrow> if nat K' = K then v else 0)"

definition gamma_spec :: "int \<Rightarrow> nat \<Rightarrow> nat \<Rightarrow> nat \<Rightarrow> real" where
  "gamma_spec n I J K = (if I < J then sc n I J K else if J < I then - sc n J I K else 0)"

definition written :: "int \<Rightarrow> nat \<Rightarrow> nat \<Rightarrow> nat \<Rightarrow> bool" where
  "written n I J K =
     (case sc_entry n (the_pair n I) (the_pair n J) of
        None \<Rightarrow> False
      | Some (K', v) \<Rightarrow> nat K' = K)"

text \<open>Matrix units and the elementary antisymmetric matrices, as entry functions.\<close>

definition unit_entry :: "nat \<Rightarrow> nat \<Rightarrow> nat \<Rightarrow> nat \<Rightarrow> real" where
  "unit_entry i j a b = (if a = i \<and> b = j then 1 else 0)"

definition skew_unit :: "nat \<Rightarrow> nat \<Rightarrow> nat \<Rightarrow> nat \<Rightarrow> real" where
  "skew_unit i j a b = unit_entry i j a b - unit_entry j i a b"

text \<open>The pairs \<open>(i, j)\<close>, \<open>0 \<le> i < j < m\<close>, listed row by row.\<close>

definition upper_pairs :: "nat \<Rightarrow> (int \<times> int) list" where
  "upper_pairs m = concat (map (\<lambda>i. map (\<lambda>j. (int i, int j)) [Suc i..<m]) [0..<m])"

text \<open>The coefficients of an algebra matrix, as \<^verbatim>\<open>_exp_grad\<close> (line 196) and
  \<^verbatim>\<open>make_embeddings\<close> (line 365) recover them:
  \<^verbatim>\<open>einsum('ijk,ljk->il', x_raw, T)/2.\<close> and \<^verbatim>\<open>np.einsum('ij,kij->k', mat, T)/2.\<close>\<close>

definition alg_coeffs :: "nat \<Rightarrow> matrix \<Rightarrow> tensor3 \<Rightarrow> real list" where
  "alg_coeffs n X T = map (\<lambda>v. v / 2) (einsum_jk_ljk n X T)"

definition mat_trace :: "matrix \<Rightarrow> real" where
  "mat_trace A = (\<Sum>i<length A. A ! i ! i)"

text \<open>A square matrix is antisymmetric when its transpose is its negation.\<close>

definition is_antisymmetric :: "matrix \<Rightarrow> bool" where
  "is_antisymmetric A = (mat_transpose A = mat_neg A)"

section \<open>The orthogonal optimizer (lines 407--429)\<close>

text \<open>
  \<^verbatim>\<open>get_grads\<close> takes from TensorFlow the rows \<^verbatim>\<open>var\<close> of the embedding table that the
  batch touches and their loss gradients \<^verbatim>\<open>grad\<close>, both of shape \<open>[batch, n, n]\<close>, and
  returns \<^verbatim>\<open>mod = einsum('ijk,ijl->ikl',var,grad) - einsum('ijk,ijl->ikl',grad,var)\<close>.
  The model is the computation on one item of the batch.
\<close>

definition get_grads :: "matrix \<Rightarrow> matrix \<Rightarrow> matrix" where
  "get_grads var grad = mat_sub (einsum_jk_jl var grad) (einsum_jk_jl grad var)"

text \<open>\<^verbatim>\<open>self._lr * grad / 2.\<close>, elementwise.\<close>

definition half_lr :: "real \<Rightarrow> matrix \<Rightarrow> matrix" where
  "half_lr lr grad = map (map (\<lambda>g. lr * g / 2)) grad"

text \<open>
  \<^verbatim>\<open>apply_grads\<close> on one item: \<^verbatim>\<open>I = tf.eye(n)\<close>, \<^verbatim>\<open>mul1 = I - lr*grad/2\<close>,
  \<^verbatim>\<open>mul2 = tf.matrix_inverse(I + lr*grad/2)\<close>, \<^verbatim>\<open>mul = matmul(mul1, mul2)\<close> and
  \<^verbatim>\<open>update = matmul(var, mul)\<close>. The inverse is TensorFlow's; it is a parameter
  \<open>matrix_inverse\<close> of the model, which returns a matrix or the error that the library
  raises. The method calls it once and has no handler around it.
\<close>

definition apply_grads ::
  "real \<Rightarrow> (matrix \<Rightarrow> error + matrix) \<Rightarrow> nat \<Rightarrow> matrix \<Rightarrow> matrix \<Rightarrow> error + matrix" where
  "apply_grads lr matrix_inverse n grad var =
     (let I = eye n;
          mul1 = mat_sub I (half_lr lr grad)
      in bind_err (matrix_inverse (mat_add I (half_lr lr grad))) (\<lambda>mul2.
           let mul = matmul mul1 mul2;
               update = matmul var mul
           in Inr update))"

text \<open>\<^verbatim>\<open>minimize\<close>: \<^verbatim>\<open>get_grads\<close>, then \<^verbatim>\<open>apply_grads\<close>.\<close>

definition minimize ::
  "real \<Rightarrow> (matrix \<Rightarrow> error + matrix) \<Rightarrow> nat \<Rightarrow> matrix \<Rightarrow> matrix \<Rightarrow> error + matrix" where
  "minimize lr matrix_inverse n var grad = apply_grads lr matrix_inverse n (get_grads var grad) var"

text \<open>A matrix \<open>M\<close> is orthogonal when \<open>M\<^sup>T M\<close> is the identity.\<close>

definition is_orthogonal :: "nat \<Rightarrow> matrix \<Rightarrow> bool" where
  "is_orthogonal n M = (is_mat n n M \<and> matmul (mat_transpose M) M = eye n)"

section \<open>Evaluating the index map\<close>

lemma isqrt_below_sq: "(isqrt_below e k)\<^sup>2 \<le> e"
  by (induction k) auto

lemma isqrt_below_max: "m \<le> k \<Longrightarrow> m\<^sup>2 \<le> e \<Longrightarrow> m \<le> isqrt_below e k"
proof (induction k)
  case 0
  then show ?case by simp
next
  case (Suc k)
  then show ?case
    by (cases "(Suc k)\<^sup>2 \<le> e") (auto simp: le_Suc_eq)
qed

lemma isqrt_floor: "int (isqrt e) = \<lfloor>sqrt (real e)\<rfloor>"
proof -
  let ?r = "isqrt e"
  have a: "?r\<^sup>2 \<le> e" by (simp add: isqrt_def isqrt_below_sq)
  have b: "e < (Suc ?r)\<^sup>2"
  proof (rule ccontr)
    assume "\<not> e < (Suc ?r)\<^sup>2"
    then have h: "(Suc ?r)\<^sup>2 \<le> e" by simp
    have "Suc ?r \<le> (Suc ?r)\<^sup>2" by (simp add: power2_eq_square)
    with h have "Suc ?r \<le> e" by linarith
    from isqrt_below_max[OF this h] show False by (simp add: isqrt_def)
  qed
  have "real ?r \<le> sqrt (real e)"
    using a by (metis of_nat_le_iff of_nat_power real_le_rsqrt)
  moreover have "sqrt (real e) < real ?r + 1"
  proof -
    have "real e < (real ?r + 1)\<^sup>2" using b
      by (metis Suc_eq_plus1 of_nat_less_iff of_nat_power of_nat_add of_nat_1)
    then show ?thesis by (simp add: real_less_lsqrt)
  qed
  ultimately show ?thesis by linarith
qed

lemma py_int_of_int [simp]: "py_int (real_of_int k) = k"
  by (simp add: py_int_def)

lemma py_int_of_int_diff1: "py_int (real_of_int k - 1) = k - 1"
  using py_int_of_int[of "k - 1"] by simp

text \<open>The radicand is a quarter of the integer \<open>e\<close>, so the ceiling is a floor of an
  integer square root. This equation is what \<open>code_simp\<close> runs.\<close>

lemma row_of_code [code]:
  "row_of n I =
     (let e = (2 * n - 1)\<^sup>2 - 8 * (int I + 1)
      in if e < 0 then Inl ValueError
         else Inr (- ((int (isqrt (nat e)) - (2 * n - 1)) div 2) - 1))"
proof -
  define e where "e = (2 * n - 1)\<^sup>2 - 8 * (int I + 1)"
  define d where "d = (real_of_int n - 0.5)\<^sup>2 - 2 * (real I + 1)"
  have de: "d = real_of_int e / 4"
    by (simp add: d_def e_def power2_eq_square algebra_simps)
  show ?thesis
  proof (cases "e < 0")
    case True
    then have "d < 0" by (simp add: de)
    then show ?thesis
      using True unfolding row_of_def Let_def d_def[symmetric] e_def[symmetric] by simp
  next
    case False
    then have d0: "\<not> d < 0" by (simp add: de)
    have sq: "sqrt d = sqrt (real (nat e)) / 2"
      using False by (simp add: de real_sqrt_divide)
    define s where "s = sqrt (real (nat e))"
    have fl: "\<lfloor>s\<rfloor> = int (isqrt (nat e))" by (simp add: s_def isqrt_floor)
    have "- (- 0.5 + real_of_int n - sqrt d) = (s - real_of_int (2 * n - 1)) / 2"
      unfolding sq s_def[symmetric] by (simp add: field_simps)
    then have "\<lceil>- 0.5 + real_of_int n - sqrt d\<rceil> = - \<lfloor>(s - real_of_int (2 * n - 1)) / 2\<rfloor>"
      by (simp only: ceiling_def)
    also have "\<lfloor>(s - real_of_int (2 * n - 1)) / 2\<rfloor> = (\<lfloor>s\<rfloor> - (2 * n - 1)) div 2"
    proof -
      have "\<lfloor>(s - real_of_int (2 * n - 1)) / 2\<rfloor>
            = \<lfloor>(s - real_of_int (2 * n - 1)) / real_of_int 2\<rfloor>" by simp
      also have "\<dots> = \<lfloor>s - real_of_int (2 * n - 1)\<rfloor> div 2"
        by (rule floor_divide_real_eq_div) simp
      also have "\<lfloor>s - real_of_int (2 * n - 1)\<rfloor> = \<lfloor>s\<rfloor> - (2 * n - 1)"
        by (rule floor_diff_of_int)
      finally show ?thesis .
    qed
    finally have c: "\<lceil>- 0.5 + real_of_int n - sqrt d\<rceil>
                     = - ((int (isqrt (nat e)) - (2 * n - 1)) div 2)"
      by (simp add: fl)
    show ?thesis
      using False d0
      unfolding row_of_def Let_def d_def[symmetric] e_def[symmetric] c py_int_of_int_diff1
      by simp
  qed
qed

section \<open>The index map is the row-major enumeration of the upper triangle\<close>

lemma even_prod: "even (i * (2 * n - i - 1))" for i n :: int
  by simp

lemma dim_N_eq: "dim_N n = n * (n - 1) div 2"
proof -
  have "even (n * (n - 1))" by simp
  then obtain k where k: "n * (n - 1) = 2 * k" by (elim evenE)
  then show ?thesis by (simp add: dim_N_def)
qed

lemma two_tri: "2 * tri n i = i * (2 * n - i - 1)"
  unfolding tri_def using even_prod[of i n] by simp

lemma real_tri: "real_of_int (i * (2 * n - i - 1)) / 2 = real_of_int (tri n i)"
  using two_tri[of n i] by (metis nonzero_mult_div_cancel_left of_int_mult of_int_numeral zero_neq_numeral)

lemma pair_index_eq: "N \<noteq> 0 \<Longrightarrow> pair_index n N a b = Inr (idx n a b mod N)"
proof -
  have "real_of_int a * (real_of_int n - 0.5 * (real_of_int a + 1)) = real_of_int (a * (2 * n - a - 1)) / 2"
    by (simp add: algebra_simps)
  also have "\<dots> = real_of_int (tri n a)" by (rule real_tri)
  finally have "py_int (real_of_int a * (real_of_int n - 0.5 * (real_of_int a + 1))) = tri n a"
    by simp
  then show ?thesis if "N \<noteq> 0" using that by (simp add: pair_index_def idx_def algebra_simps)
qed

lemma row_of_tri:
  assumes i0: "0 \<le> i" and i1: "i + 2 \<le> n" and lo: "tri n i \<le> int I" and hi: "int I < tri n (i + 1)"
  shows "row_of n I = Inr i"
proof -
  define d where "d = (real_of_int n - 0.5)\<^sup>2 - 2 * (real I + 1)"
  have lo2: "i * (2 * n - i - 1) \<le> 2 * int I" using lo two_tri[of n i] by linarith
  have hi2: "2 * int I + 2 \<le> (i + 1) * (2 * n - (i + 1) - 1)" using hi two_tri[of n "i + 1"] by linarith
  have lo3: "real_of_int i * (2 * real_of_int n - real_of_int i - 1) \<le> 2 * real I"
  proof -
    have "real_of_int (i * (2 * n - i - 1)) \<le> real_of_int (2 * int I)"
      using lo2 by (simp only: of_int_le_iff)
    then show ?thesis by simp
  qed
  have hi3: "2 * real I + 2 \<le> (real_of_int i + 1) * (2 * real_of_int n - (real_of_int i + 1) - 1)"
  proof -
    have "real_of_int (2 * int I + 2) \<le> real_of_int ((i + 1) * (2 * n - (i + 1) - 1))"
      using hi2 by (simp only: of_int_le_iff)
    then show ?thesis by simp
  qed
  have A: "(real_of_int n - 1.5 - real_of_int i)\<^sup>2 \<le> d"
    using hi3 by (simp add: d_def power2_eq_square algebra_simps)
  have B: "d < (real_of_int n - 0.5 - real_of_int i)\<^sup>2"
    using lo3 by (simp add: d_def power2_eq_square algebra_simps)
  have d0: "0 \<le> d" using A by (meson order_trans zero_le_power2)
  have "real_of_int n - 1.5 - real_of_int i \<le> sqrt d" using A by (rule real_le_rsqrt)
  moreover have "sqrt d < real_of_int n - 0.5 - real_of_int i"
    using B i1 by (intro real_less_lsqrt) auto
  ultimately have "\<lceil>- 0.5 + real_of_int n - sqrt d\<rceil> = i + 1"
    by (intro ceiling_unique) auto
  then show ?thesis using d0 unfolding row_of_def Let_def d_def[symmetric]
    by (simp add: py_int_of_int_diff1)
qed

lemma tri_Suc: "tri n (i + 1) = tri n i + (n - i - 1)"
proof -
  have "2 * tri n (i + 1) = 2 * (tri n i + (n - i - 1))"
    using two_tri[of n i] two_tri[of n "i + 1"] by (simp add: algebra_simps)
  then show ?thesis by simp
qed

lemma tri_0 [simp]: "tri n 0 = 0" by (simp add: tri_def)

lemma tri_top: "tri n (n - 1) = dim_N n"
  by (simp add: tri_def dim_N_eq algebra_simps)

lemma idx_bounds:
  assumes "0 \<le> i" "i < j" "j < n"
  shows "tri n i \<le> idx n i j" "idx n i j < tri n (i + 1)"
  using assms by (simp_all add: idx_def tri_Suc)

lemma tri_mono: "0 \<le> i \<Longrightarrow> i \<le> k \<Longrightarrow> k \<le> n - 1 \<Longrightarrow> tri n i \<le> tri n k"
proof (induction "nat (k - i)" arbitrary: k)
  case 0
  then show ?case by simp
next
  case (Suc m)
  then have "tri n i \<le> tri n (k - 1)" by (intro Suc.hyps) auto
  also have "tri n (k - 1) \<le> tri n k" using tri_Suc[of n "k - 1"] Suc.prems by simp
  finally show ?case .
qed

lemma idx_range:
  assumes "0 \<le> i" "i < j" "j < n"
  shows "0 \<le> idx n i j" "idx n i j < dim_N n"
proof -
  have "0 \<le> tri n i" using tri_mono[of 0 i n] assms by simp
  then show "0 \<le> idx n i j" using idx_bounds(1)[OF assms] by simp
  have "tri n (i + 1) \<le> tri n (n - 1)" using assms by (intro tri_mono) auto
  then show "idx n i j < dim_N n" using idx_bounds(2)[OF assms] by (simp add: tri_top)
qed

lemma pair_of_idx:
  assumes "0 \<le> i" "i < j" "j < n"
  shows "pair_of n (nat (idx n i j)) = Inr (i, j)"
proof -
  have nn: "int (nat (idx n i j)) = idx n i j" using idx_range(1)[OF assms] by simp
  have "tri n i \<le> int (nat (idx n i j))" "int (nat (idx n i j)) < tri n (i + 1)"
    using idx_bounds[OF assms] by (simp_all only: nn)
  then have r: "row_of n (nat (idx n i j)) = Inr i"
    using assms by (intro row_of_tri) auto
  have "real (nat (idx n i j)) = real_of_int (idx n i j)"
    using nn by (metis of_int_of_nat_eq)
  then have "real_of_int i + (real (nat (idx n i j)) + 1 - real_of_int (tri n i)) = real_of_int j"
    by (simp add: idx_def)
  then show ?thesis
    unfolding pair_of_def r bind_err_def real_tri Let_def by simp
qed

lemma idx_exists:
  assumes "0 \<le> n" "0 \<le> I" "I < dim_N n"
  shows "\<exists>i j. 0 \<le> i \<and> i < j \<and> j < n \<and> idx n i j = I"
proof -
  have n2: "2 \<le> n"
  proof (rule ccontr)
    assume "\<not> 2 \<le> n"
    with assms(1) have "n = 0 \<or> n = 1" by auto
    then have "dim_N n = 0" by (auto simp: dim_N_eq)
    then show False using assms by simp
  qed
  have "\<exists>i. 0 \<le> i \<and> i < k \<and> tri n i \<le> I \<and> I < tri n (i + 1)" if "0 < k" "k \<le> n - 1" "I < tri n k" for k
    using that
  proof (induction "nat k" arbitrary: k)
    case 0
    then show ?case by simp
  next
    case (Suc m)
    show ?case
    proof (cases "tri n (k - 1) \<le> I")
      case True
      then show ?thesis using Suc.prems by (intro exI[of _ "k - 1"]) auto
    next
      case False
      then have "0 < k - 1" using assms(2) by (cases "k = 1") (use Suc.prems in auto)
      with Suc.hyps(1)[of "k - 1"] Suc.hyps(2) Suc.prems False
      obtain i where "0 \<le> i \<and> i < k - 1 \<and> tri n i \<le> I \<and> I < tri n (i + 1)" by force
      then show ?thesis by (intro exI[of _ i]) auto
    qed
  qed
  from this[of "n - 1"] assms n2 obtain i where i: "0 \<le> i" "i < n - 1" "tri n i \<le> I" "I < tri n (i + 1)"
    by (auto simp: tri_top)
  define j where "j = I - tri n i + i + 1"
  have "i < j" "j < n" "idx n i j = I" using i by (auto simp: j_def idx_def tri_Suc)
  with i(1) show ?thesis by blast
qed

section \<open>The generators, in closed form\<close>

lemma pair_of_ok:
  assumes "0 \<le> n" "int I < dim_N n"
  shows "\<exists>i j. pair_of n I = Inr (i, j) \<and> 0 \<le> i \<and> i < j \<and> j < n \<and> idx n i j = int I"
proof -
  from idx_exists[OF assms(1) _ assms(2)] obtain i j
    where ij: "0 \<le> i" "i < j" "j < n" "idx n i j = int I" by auto
  from pair_of_idx[OF ij(1-3)] ij(4) have "pair_of n I = Inr (i, j)" by simp
  with ij show ?thesis by blast
qed

lemma pair_of_props:
  assumes "0 \<le> n" "int I < dim_N n" "pair_of n I = Inr (i, j)"
  shows "0 \<le> i" "i < j" "j < n" "idx n i j = int I"
  using pair_of_ok[OF assms(1,2)] assms(3) by auto

lemma np_index_nat: "0 \<le> k \<Longrightarrow> k < int len \<Longrightarrow> np_index k len = Inr (nat k)"
  by (simp add: np_index_def)

lemma bind_err_Inr [simp]: "bind_err (Inr x) f = f x"
  by (simp add: bind_err_def)

lemma bind_err_Inl [simp]: "bind_err (Inl e) f = Inl e"
  by (simp add: bind_err_def)

lemma set3_nat:
  assumes "I < length A" "i < length (A ! I)" "j < length (A ! I ! i)"
  shows "set3 A (int I) (int i) (int j) v = Inr (A[I := (A ! I)[i := (A ! I ! i)[j := v]]])"
  using assms by (simp add: set3_def np_index_def)

lemma get3_nat:
  assumes "I < length A" "i < length (A ! I)" "j < length (A ! I ! i)"
  shows "get3 A (int I) (int i) (int j) = Inr (A ! I ! i ! j)"
  using assms by (simp add: get3_def np_index_def)

lemma mat_nth [simp]: "a < r \<Longrightarrow> b < c \<Longrightarrow> mat r c f ! a ! b = f a b"
  by (simp add: mat_def)

lemma length_mat [simp]: "length (mat r c f) = r"
  by (simp add: mat_def)

lemma length_mat_row [simp]: "a < r \<Longrightarrow> length (mat r c f ! a) = c"
  by (simp add: mat_def)

lemma mat_eqI:
  assumes "length A = r" "\<And>a. a < r \<Longrightarrow> length (A ! a) = c"
    and "\<And>a b. a < r \<Longrightarrow> b < c \<Longrightarrow> A ! a ! b = f a b"
  shows "A = mat r c f"
proof (rule nth_equalityI)
  show "length A = length (mat r c f)" using assms(1) by simp
  fix a assume "a < length A"
  then have a: "a < r" using assms(1) by simp
  show "A ! a = mat r c f ! a"
  proof (rule nth_equalityI)
    show "length (A ! a) = length (mat r c f ! a)" using a assms(2) by simp
    fix b assume "b < length (A ! a)"
    then have "b < c" using assms(2)[OF a] by simp
    then show "A ! a ! b = mat r c f ! a ! b" using a assms(3) by simp
  qed
qed

lemma gen_step_eq:
  assumes n0: "0 \<le> n" and IN: "int I < dim_N n" and IT: "I < length T"
    and z: "T ! I = replicate (nat n) (replicate (nat n) 0)"
    and p: "pair_of n I = Inr (i, j)"
  shows "gen_step n I T = Inr (T[I := gen_mat (nat n) i j])"
proof -
  note pp = pair_of_props[OF n0 IN p]
  define a where "a = nat i"
  define b where "b = nat j"
  define m where "m = nat n"
  have ia: "i = int a" and jb: "j = int b" using pp by (simp_all add: a_def b_def)
  have ab: "a < b" "b < m" "a < m" using pp by (simp_all add: a_def b_def m_def)
  define s :: real where "s = (- 1) powi (i + j + 1)"
  define T1 where "T1 = T[I := (T ! I)[a := (T ! I ! a)[b := s]]]"
  have s1: "set3 T (int I) i j s = Inr T1"
    unfolding ia jb T1_def using IT ab z by (intro set3_nat) (simp_all add: m_def)
  have T1I: "T1 ! I = (replicate m (replicate m 0))[a := (replicate m 0)[b := s]]"
    using IT ab z by (simp add: T1_def m_def)
  have g1: "get3 T1 (int I) i j = Inr s"
    unfolding ia jb using IT ab T1I by (subst get3_nat) (simp_all add: T1_def)
  have s2: "set3 T1 (int I) j i (- s) = Inr (T1[I := (T1 ! I)[b := (T1 ! I ! b)[a := - s]]])"
    unfolding ia jb using IT ab T1I by (intro set3_nat) (simp_all add: T1_def)
  have M: "(T1 ! I)[b := (T1 ! I ! b)[a := - s]] = gen_mat m i j"
    unfolding gen_mat_def
  proof (rule mat_eqI)
    show "length ((T1 ! I)[b := (T1 ! I ! b)[a := - s]]) = m" by (simp add: T1I)
    show "length ((T1 ! I)[b := (T1 ! I ! b)[a := - s]] ! x) = m" if "x < m" for x
      using that ab by (simp add: T1I nth_list_update)
    show "(T1 ! I)[b := (T1 ! I ! b)[a := - s]] ! x ! y =
          (if int x = i \<and> int y = j then gen_sign i j
           else if int x = j \<and> int y = i then - gen_sign i j else 0)" if "x < m" "y < m" for x y
      using that ab by (auto simp add: T1I nth_list_update ia jb gen_sign_def s_def)
  qed
  have e: "T1[I := (T1 ! I)[b := (T1 ! I ! b)[a := - s]]] = T[I := gen_mat m i j]"
    unfolding M by (simp add: T1_def)
  show ?thesis
    unfolding gen_step_def p using s1 g1 s2 e by (simp add: s_def[symmetric] m_def)
qed

lemma fold_list_update_nth:
  "k < length T \<Longrightarrow> fold (\<lambda>I T. T[I := G I]) xs T ! k = (if k \<in> set xs then G k else T ! k)"
  by (induction xs arbitrary: T) (auto simp: nth_list_update)

lemma fold_list_update_length [simp]:
  "length (fold (\<lambda>I T. T[I := G I]) xs T) = length T"
  by (induction xs arbitrary: T) auto

lemma gen_step_generator:
  assumes "0 \<le> n" "int I < dim_N n" "I < length T" "T ! I = replicate (nat n) (replicate (nat n) 0)"
  shows "gen_step n I T = Inr (T[I := generator n I])"
proof -
  from pair_of_ok[OF assms(1,2)] obtain i j where p: "pair_of n I = Inr (i, j)" by blast
  show ?thesis using gen_step_eq[OF assms p] by (simp add: generator_def p)
qed

lemma gen_loop:
  assumes "0 \<le> n" "distinct xs"
    and "\<And>x. x \<in> set xs \<Longrightarrow> x < length T \<and> int x < dim_N n \<and> T ! x = replicate (nat n) (replicate (nat n) 0)"
  shows "for_loop xs (gen_step n) T = Inr (fold (\<lambda>I T. T[I := generator n I]) xs T)"
  using assms(2,3)
proof (induction xs arbitrary: T)
  case Nil
  then show ?case by simp
next
  case (Cons x xs)
  have st: "gen_step n x T = Inr (T[x := generator n x])"
    using Cons.prems(2)[of x] by (intro gen_step_generator assms(1)) auto
  have "for_loop xs (gen_step n) (T[x := generator n x])
        = Inr (fold (\<lambda>I T. T[I := generator n I]) xs (T[x := generator n x]))"
  proof (rule Cons.IH)
    show "distinct xs" using Cons.prems(1) by simp
    fix y assume y: "y \<in> set xs"
    then have "y \<noteq> x" using Cons.prems(1) by auto
    then show "y < length (T[x := generator n x]) \<and> int y < dim_N n \<and>
               T[x := generator n x] ! y = replicate (nat n) (replicate (nat n) 0)"
      using Cons.prems(2)[of y] y by simp
  qed
  then show ?case by (simp add: st)
qed

lemma dim_N_nonneg: "0 \<le> dim_N n"
proof -
  have "0 \<le> n * (n - 1)" by (cases "0 \<le> n") (auto simp: mult_le_0_iff zero_le_mult_iff)
  then show ?thesis by (simp add: dim_N_eq)
qed

lemma build_T_eq:
  assumes "0 \<le> n"
  shows "build_T n = Inr (map (generator n) [0..<nat (dim_N n)])"
proof -
  define N where "N = nat (dim_N n)"
  define Z where "Z = replicate N (replicate (nat n) (replicate (nat n) (0::real)))"
  have z: "np_zeros3 (dim_N n) n n = Inr Z"
    using assms dim_N_nonneg[of n] by (simp add: np_zeros3_def Z_def N_def)
  have "for_loop [0..<N] (gen_step n) Z = Inr (fold (\<lambda>I T. T[I := generator n I]) [0..<N] Z)"
    using assms by (intro gen_loop) (auto simp: Z_def N_def)
  moreover have "fold (\<lambda>I T. T[I := generator n I]) [0..<N] Z = map (generator n) [0..<N]"
    by (rule nth_equalityI) (simp_all add: Z_def fold_list_update_nth)
  ultimately show ?thesis by (simp add: build_T_def z N_def)
qed

lemma build_T_neg: "n < 0 \<Longrightarrow> build_T n = Inl ValueError"
  by (simp add: build_T_def np_zeros3_def)

section \<open>The structure constants, in closed form\<close>

lemma the_pair_eq: "pair_of n I = Inr p \<Longrightarrow> the_pair n I = p"
  by (simp add: the_pair_def)

lemma the_pair_props:
  assumes "0 \<le> n" "int I < dim_N n"
  shows "pair_of n I = Inr (the_pair n I)"
    "0 \<le> fst (the_pair n I)" "fst (the_pair n I) < snd (the_pair n I)"
    "snd (the_pair n I) < n" "idx n (fst (the_pair n I)) (snd (the_pair n I)) = int I"
proof -
  from pair_of_ok[OF assms] obtain i j where
    p: "pair_of n I = Inr (i, j)" "0 \<le> i" "i < j" "j < n" "idx n i j = int I" by blast
  then have "the_pair n I = (i, j)" by (simp add: the_pair_eq)
  with p show "pair_of n I = Inr (the_pair n I)"
    "0 \<le> fst (the_pair n I)" "fst (the_pair n I) < snd (the_pair n I)"
    "snd (the_pair n I) < n" "idx n (fst (the_pair n I)) (snd (the_pair n I)) = int I"
    by simp_all
qed

text \<open>The enumeration is row-major: a smaller index has a smaller or equal row, and in
  one row a smaller column.\<close>

lemma idx_less_row:
  assumes "0 \<le> i" "i < j" "j < n" "0 \<le> k" "k < l" "l < n" "i < k"
  shows "idx n i j < idx n k l"
proof -
  have "idx n i j < tri n (i + 1)" using assms by (intro idx_bounds) auto
  also have "tri n (i + 1) \<le> tri n k" using assms by (intro tri_mono) auto
  also have "tri n k \<le> idx n k l" using assms by (intro idx_bounds) auto
  finally show ?thesis .
qed

lemma pair_order:
  assumes n0: "0 \<le> n" and IJ: "I < J" and JN: "int J < dim_N n"
  shows "fst (the_pair n I) < fst (the_pair n J) \<or>
         (fst (the_pair n I) = fst (the_pair n J) \<and> snd (the_pair n I) < snd (the_pair n J))"
proof -
  have IN: "int I < dim_N n" using IJ JN by simp
  note pI = the_pair_props[OF n0 IN] and pJ = the_pair_props[OF n0 JN]
  obtain i j where ij: "the_pair n I = (i, j)" by (cases "the_pair n I")
  obtain k l where kl: "the_pair n J = (k, l)" by (cases "the_pair n J")
  have lt: "idx n i j < idx n k l" using pI(5) pJ(5) IJ by (simp add: ij kl)
  have "\<not> k < i"
    using idx_less_row[of k l n i j] pI(2-4) pJ(2-4) lt by (auto simp: ij kl)
  moreover have "j < l" if "i = k" using lt that by (simp add: idx_def)
  ultimately show ?thesis by (auto simp: ij kl)
qed

lemma length_upd3 [simp]: "length (upd3 g I J K v) = length g"
  by (simp add: upd3_def)

lemma length_upd3_row [simp]: "a < length g \<Longrightarrow> length (upd3 g I J K v ! a) = length (g ! a)"
  by (cases "a = I") (simp_all add: upd3_def)

lemma length_upd3_cell [simp]:
  "a < length g \<Longrightarrow> b < length (g ! a) \<Longrightarrow> length (upd3 g I J K v ! a ! b) = length (g ! a ! b)"
  by (cases "a = I"; cases "b = J") (simp_all add: upd3_def)

lemma shape3_upd3 [simp]: "shape3 N (upd3 g I J K v) = shape3 N g"
proof
  assume h: "shape3 N (upd3 g I J K v)"
  then have l: "length g = N" by (simp add: shape3_def)
  show "shape3 N g"
    unfolding shape3_def
  proof (intro conjI allI impI)
    show "length g = N" by (rule l)
    fix a assume a: "a < N"
    with h l show la: "length (g ! a) = N" by (auto simp: shape3_def)
    fix b assume b: "b < N"
    from h a b have "length (upd3 g I J K v ! a ! b) = N" by (simp add: shape3_def)
    then show "length (g ! a ! b) = N" using a b l la by simp
  qed
next
  assume h: "shape3 N g"
  then show "shape3 N (upd3 g I J K v)" by (simp add: shape3_def)
qed

lemma upd3_nth:
  assumes "shape3 N g" "I < N" "J < N" "K < N" "a < N" "b < N" "c < N"
  shows "upd3 g I J K v ! a ! b ! c = (if a = I \<and> b = J \<and> c = K then v else g ! a ! b ! c)"
  using assms by (auto simp: shape3_def upd3_def nth_list_update)

lemma set3_upd3:
  assumes "shape3 N g" "I < N" "J < N" "0 \<le> K" "K < int N"
  shows "set3 g (int I) (int J) K v = Inr (upd3 g I J (nat K) v)"
proof -
  have "set3 g (int I) (int J) (int (nat K)) v = Inr (upd3 g I J (nat K) v)"
    unfolding upd3_def using assms by (intro set3_nat) (auto simp: shape3_def)
  then show ?thesis using assms(4) by simp
qed

lemma set_both_eq:
  assumes "shape3 N g" "I < N" "J < N" "0 \<le> K" "K < int N"
  shows "set_both I J v K g = Inr (upd3 (upd3 g I J (nat K) v) J I (nat K) (- v))"
  unfolding set_both_def using assms by (simp add: set3_upd3[where N = N])

lemma gamma_step_eq:
  assumes n0: "0 \<le> n" and IJ: "I < J" and JN: "int J < dim_N n" and sh: "shape3 (nat (dim_N n)) g"
  shows "gamma_step n (dim_N n) I J g = Inr (gamma_upd n I J g)"
proof -
  define N where "N = dim_N n"
  have IN: "int I < dim_N n" using IJ JN by simp
  note pI = the_pair_props[OF n0 IN] and pJ = the_pair_props[OF n0 JN]
  obtain i j where ij: "the_pair n I = (i, j)" by (cases "the_pair n I")
  obtain k l where kl: "the_pair n J = (k, l)" by (cases "the_pair n J")
  have b: "0 \<le> i" "i < j" "j < n" "0 \<le> k" "k < l" "l < n"
    using pI(2-4) pJ(2-4) by (simp_all add: ij kl)
  have ord: "i < k \<or> (i = k \<and> j < l)" using pair_order[OF n0 IJ JN] by (simp add: ij kl)
  have N0: "N \<noteq> 0" "0 < N" using JN by (simp_all add: N_def)
  have INn: "I < nat N" "J < nat N" using IN JN by (simp_all add: N_def)
  have K: "pair_index n N x y = Inr (idx n x y)" "0 \<le> idx n x y" "idx n x y < int (nat N)"
    if "0 \<le> x" "x < y" "y < n" for x y
    using idx_range[OF that] N0 by (simp_all add: pair_index_eq N_def)
  have sb: "set_both I J v (idx n x y) g = Inr (upd3 (upd3 g I J (nat (idx n x y)) v) J I (nat (idx n x y)) (- v))"
    if "0 \<le> x" "x < y" "y < n" for x y v
    using sh INn K(2,3)[OF that] by (intro set_both_eq[where N = "nat N"]) (simp_all add: N_def)
  consider (row) "i = k" "j < l" | (col) "i < k" "j = l" | (chain) "i < k" "j = k" | (none) "i < k" "j \<noteq> l" "j \<noteq> k"
    using ord by fastforce
  then show ?thesis
  proof cases
    case row
    then show ?thesis
      unfolding gamma_step_def pI(1) pJ(1) ij kl N_def[symmetric] gamma_upd_def sc_entry_def if_block_def
      using b K[of j l] sb[of j l 1] by simp
  next
    case col
    then show ?thesis
      unfolding gamma_step_def pI(1) pJ(1) ij kl N_def[symmetric] gamma_upd_def sc_entry_def if_block_def
      using b K[of i k] sb[of i k 1] by simp
  next
    case chain
    then show ?thesis
      unfolding gamma_step_def pI(1) pJ(1) ij kl N_def[symmetric] gamma_upd_def sc_entry_def if_block_def
      using b K[of i l] sb[of i l "- 1"] by simp
  next
    case none
    then show ?thesis
      unfolding gamma_step_def pI(1) pJ(1) ij kl N_def[symmetric] gamma_upd_def sc_entry_def if_block_def
      using b by simp
  qed
qed

lemma sc_not_written: "\<not> written n I J K \<Longrightarrow> sc n I J K = 0"
  by (auto simp: sc_def written_def split: option.splits)

lemma shape3_gamma_upd [simp]: "shape3 N (gamma_upd n I J g) = shape3 N g"
  by (simp add: gamma_upd_def split: option.splits)

lemma sc_entry_range:
  assumes n0: "0 \<le> n" and IJ: "I < J" and JN: "int J < dim_N n"
    and e: "sc_entry n (the_pair n I) (the_pair n J) = Some (K, v)"
  shows "0 \<le> K \<and> K < dim_N n"
proof -
  have IN: "int I < dim_N n" using IJ JN by simp
  note pI = the_pair_props[OF n0 IN] and pJ = the_pair_props[OF n0 JN]
  obtain i j where ij: "the_pair n I = (i, j)" by (cases "the_pair n I")
  obtain k l where kl: "the_pair n J = (k, l)" by (cases "the_pair n J")
  have b: "0 \<le> i" "i < j" "j < n" "0 \<le> k" "k < l" "l < n"
    using pI(2-4) pJ(2-4) by (simp_all add: ij kl)
  have ord: "i < k \<or> (i = k \<and> j < l)" using pair_order[OF n0 IJ JN] by (simp add: ij kl)
  from e ord b show ?thesis
    by (auto simp: sc_entry_def ij kl idx_range split: if_splits)
qed

lemma gamma_upd_nth:
  assumes n0: "0 \<le> n" and IJ: "I < J" and JN: "int J < dim_N n"
    and sh: "shape3 (nat (dim_N n)) g"
    and abc: "a < nat (dim_N n)" "b < nat (dim_N n)" "c < nat (dim_N n)"
  shows "gamma_upd n I J g ! a ! b ! c =
           (if a = I \<and> b = J \<and> written n I J c then sc n I J c
            else if a = J \<and> b = I \<and> written n I J c then - sc n I J c
            else g ! a ! b ! c)"
proof (cases "sc_entry n (the_pair n I) (the_pair n J)")
  case None
  then show ?thesis by (simp add: gamma_upd_def written_def)
next
  case (Some kv)
  obtain K v where kv: "kv = (K, v)" by (cases kv)
  have K: "0 \<le> K" "K < dim_N n" using sc_entry_range[OF n0 IJ JN] Some kv by auto
  have IN: "I < nat (dim_N n)" "J < nat (dim_N n)" "nat K < nat (dim_N n)" using IJ JN K by auto
  have u1: "upd3 (upd3 g I J (nat K) v) J I (nat K) (- v) ! a ! b ! c =
            (if a = J \<and> b = I \<and> c = nat K then - v else upd3 g I J (nat K) v ! a ! b ! c)"
    using sh IN abc by (intro upd3_nth[where N = "nat (dim_N n)"]) simp_all
  have u2: "upd3 g I J (nat K) v ! a ! b ! c =
            (if a = I \<and> b = J \<and> c = nat K then v else g ! a ! b ! c)"
    using sh IN abc by (intro upd3_nth[where N = "nat (dim_N n)"]) simp_all
  have "gamma_upd n I J g ! a ! b ! c = upd3 (upd3 g I J (nat K) v) J I (nat K) (- v) ! a ! b ! c"
    by (simp add: gamma_upd_def Some kv)
  also have "\<dots> = (if a = J \<and> b = I \<and> c = nat K then - v
                    else if a = I \<and> b = J \<and> c = nat K then v else g ! a ! b ! c)"
    unfolding u1 u2 ..
  also have "\<dots> = (if a = I \<and> b = J \<and> written n I J c then sc n I J c
            else if a = J \<and> b = I \<and> written n I J c then - sc n I J c
            else g ! a ! b ! c)"
    using IJ by (auto simp add: written_def sc_def Some kv)
  finally show ?thesis .
qed

lemma inner_loop:
  assumes n0: "0 \<le> n"
    and "shape3 (nat (dim_N n)) g" "\<And>J. J \<in> set js \<Longrightarrow> I < J \<and> int J < dim_N n"
  shows "for_loop js (gamma_step n (dim_N n) I) g = Inr (fold (gamma_upd n I) js g)"
  using assms(2,3)
proof (induction js arbitrary: g)
  case Nil
  then show ?case by simp
next
  case (Cons J js)
  have "gamma_step n (dim_N n) I J g = Inr (gamma_upd n I J g)"
    using Cons.prems by (intro gamma_step_eq n0) auto
  moreover have "for_loop js (gamma_step n (dim_N n) I) (gamma_upd n I J g)
                 = Inr (fold (gamma_upd n I) js (gamma_upd n I J g))"
    using Cons.prems by (intro Cons.IH) auto
  ultimately show ?case by simp
qed

lemma shape3_fold_inner [simp]: "shape3 N (fold (gamma_upd n I) js g) = shape3 N g"
  by (induction js arbitrary: g) auto

lemma shape3_fold_outer [simp]:
  "shape3 N (fold (\<lambda>I. fold (gamma_upd n I) (f I)) is g) = shape3 N g"
  by (induction "is" arbitrary: g) auto

lemma inner_nth:
  assumes n0: "0 \<le> n"
    and sh: "shape3 (nat (dim_N n)) g" and d: "distinct js"
    and js: "\<And>J. J \<in> set js \<Longrightarrow> I < J \<and> int J < dim_N n"
    and abc: "a < nat (dim_N n)" "b < nat (dim_N n)" "c < nat (dim_N n)"
  shows "fold (gamma_upd n I) js g ! a ! b ! c =
           (if a = I \<and> b \<in> set js \<and> written n I b c then sc n I b c
            else if b = I \<and> a \<in> set js \<and> written n I a c then - sc n I a c
            else g ! a ! b ! c)"
  using sh d js
proof (induction js arbitrary: g)
  case Nil
  then show ?case by simp
next
  case (Cons J js)
  have J: "I < J" "int J < dim_N n" "J \<notin> set js" using Cons.prems by auto
  have ih: "fold (gamma_upd n I) js (gamma_upd n I J g) ! a ! b ! c =
           (if a = I \<and> b \<in> set js \<and> written n I b c then sc n I b c
            else if b = I \<and> a \<in> set js \<and> written n I a c then - sc n I a c
            else gamma_upd n I J g ! a ! b ! c)"
    using Cons.prems by (intro Cons.IH) auto
  have st: "gamma_upd n I J g ! a ! b ! c =
           (if a = I \<and> b = J \<and> written n I J c then sc n I J c
            else if a = J \<and> b = I \<and> written n I J c then - sc n I J c
            else g ! a ! b ! c)"
    using Cons.prems(1) by (intro gamma_upd_nth n0 J abc)
  show ?case using J unfolding fold_Cons comp_def ih st by auto
qed

lemma outer_loop:
  assumes n0: "0 \<le> n"
    and "shape3 (nat (dim_N n)) g" "\<And>I. I \<in> set is \<Longrightarrow> int I < dim_N n"
  shows "for_loop is (\<lambda>I. for_loop [Suc I..<nat (dim_N n)] (gamma_step n (dim_N n) I)) g
         = Inr (fold (\<lambda>I. fold (gamma_upd n I) [Suc I..<nat (dim_N n)]) is g)"
  using assms(2,3)
proof (induction "is" arbitrary: g)
  case Nil
  then show ?case by simp
next
  case (Cons I "is")
  have "for_loop [Suc I..<nat (dim_N n)] (gamma_step n (dim_N n) I) g
        = Inr (fold (gamma_upd n I) [Suc I..<nat (dim_N n)] g)"
    using Cons.prems by (intro inner_loop n0) auto
  moreover have "for_loop is (\<lambda>I. for_loop [Suc I..<nat (dim_N n)] (gamma_step n (dim_N n) I))
                   (fold (gamma_upd n I) [Suc I..<nat (dim_N n)] g)
                 = Inr (fold (\<lambda>I. fold (gamma_upd n I) [Suc I..<nat (dim_N n)]) is
                     (fold (gamma_upd n I) [Suc I..<nat (dim_N n)] g))"
    using Cons.prems by (intro Cons.IH) auto
  ultimately show ?case by simp
qed

lemma outer_nth:
  assumes n0: "0 \<le> n"
    and sh: "shape3 (nat (dim_N n)) g" and d: "distinct is"
    and abc: "a < nat (dim_N n)" "b < nat (dim_N n)" "c < nat (dim_N n)"
  shows "fold (\<lambda>I. fold (gamma_upd n I) [Suc I..<nat (dim_N n)]) is g ! a ! b ! c =
           (if a \<in> set is \<and> a < b \<and> written n a b c then sc n a b c
            else if b \<in> set is \<and> b < a \<and> written n b a c then - sc n b a c
            else g ! a ! b ! c)"
  using sh d
proof (induction "is" arbitrary: g)
  case Nil
  then show ?case by simp
next
  case (Cons I "is")
  let ?g1 = "fold (gamma_upd n I) [Suc I..<nat (dim_N n)] g"
  have ih: "fold (\<lambda>I. fold (gamma_upd n I) [Suc I..<nat (dim_N n)]) is ?g1 ! a ! b ! c =
           (if a \<in> set is \<and> a < b \<and> written n a b c then sc n a b c
            else if b \<in> set is \<and> b < a \<and> written n b a c then - sc n b a c
            else ?g1 ! a ! b ! c)"
    using Cons.prems by (intro Cons.IH) auto
  have st: "?g1 ! a ! b ! c =
           (if a = I \<and> b \<in> set [Suc I..<nat (dim_N n)] \<and> written n I b c then sc n I b c
            else if b = I \<and> a \<in> set [Suc I..<nat (dim_N n)] \<and> written n I a c then - sc n I a c
            else g ! a ! b ! c)"
    using Cons.prems(1) by (intro inner_nth n0 abc) auto
  have "I \<notin> set is" using Cons.prems by simp
  then show ?case using abc unfolding fold_Cons comp_def ih st by auto
qed

lemma build_gamma_eq:
  assumes n0: "0 \<le> n"
  shows "\<exists>g. build_gamma n = Inr g \<and> shape3 (nat (dim_N n)) g \<and>
           (\<forall>I<nat (dim_N n). \<forall>J<nat (dim_N n). \<forall>K<nat (dim_N n). g ! I ! J ! K = gamma_spec n I J K)"
proof -
  define N where "N = nat (dim_N n)"
  define Z where "Z = replicate N (replicate N (replicate N (0::real)))"
  define g where "g = fold (\<lambda>I. fold (gamma_upd n I) [Suc I..<N]) [0..<N] Z"
  have z: "np_zeros3 (dim_N n) (dim_N n) (dim_N n) = Inr Z"
    using dim_N_nonneg[of n] by (simp add: np_zeros3_def Z_def N_def)
  have shZ: "shape3 N Z" by (simp add: shape3_def Z_def)
  have 1: "build_gamma n = Inr g"
    unfolding build_gamma_def z g_def N_def
    using shZ outer_loop[OF n0, of Z "[0..<nat (dim_N n)]"] by (simp add: N_def)
  have 2: "shape3 N g"
    unfolding g_def using shZ by simp
  have 3: "g ! I ! J ! K = gamma_spec n I J K" if "I < N" "J < N" "K < N" for I J K
  proof -
    have "g ! I ! J ! K = (if I \<in> set [0..<N] \<and> I < J \<and> written n I J K then sc n I J K
            else if J \<in> set [0..<N] \<and> J < I \<and> written n J I K then - sc n J I K
            else Z ! I ! J ! K)"
      unfolding g_def N_def using that shZ by (intro outer_nth n0) (auto simp: N_def)
    also have "\<dots> = gamma_spec n I J K"
      using that by (auto simp: gamma_spec_def Z_def sc_not_written)
    finally show ?thesis .
  qed
  show ?thesis using 1 2 3 unfolding N_def by blast
qed

section \<open>The constructed object\<close>

lemma liegr_init_ok:
  assumes "0 \<le> n"
  shows "\<exists>g. liegr_init n =
             Inr \<lparr>liegr_N = dim_N n, liegr_n = n,
                  liegr_T = map (generator n) [0..<nat (dim_N n)], liegr_gamma = g\<rparr>
           \<and> shape3 (nat (dim_N n)) g
           \<and> (\<forall>I<nat (dim_N n). \<forall>J<nat (dim_N n). \<forall>K<nat (dim_N n).
                 g ! I ! J ! K = gamma_spec n I J K)"
proof -
  from build_gamma_eq[OF assms] obtain g where g: "build_gamma n = Inr g"
    "shape3 (nat (dim_N n)) g"
    "\<forall>I<nat (dim_N n). \<forall>J<nat (dim_N n). \<forall>K<nat (dim_N n). g ! I ! J ! K = gamma_spec n I J K"
    by blast
  then show ?thesis by (simp add: liegr_init_def build_T_eq[OF assms])
qed

lemma gamma_spec_antisym: "gamma_spec n I J K = - gamma_spec n J I K"
  by (simp add: gamma_spec_def)

lemma gamma_spec_diag: "gamma_spec n I I K = 0"
  by (simp add: gamma_spec_def)

lemma generator_nth:
  assumes "0 \<le> n" "int I < dim_N n" "a < nat n" "b < nat n"
  shows "generator n I ! a ! b =
           (if int a = fst (the_pair n I) \<and> int b = snd (the_pair n I)
              then gen_sign (fst (the_pair n I)) (snd (the_pair n I))
            else if int a = snd (the_pair n I) \<and> int b = fst (the_pair n I)
              then - gen_sign (fst (the_pair n I)) (snd (the_pair n I))
            else 0)"
proof -
  obtain i j where ij: "the_pair n I = (i, j)" by (cases "the_pair n I")
  have "pair_of n I = Inr (i, j)" using the_pair_props(1)[OF assms(1,2)] ij by simp
  then show ?thesis using assms(3,4) by (simp add: generator_def gen_mat_def ij)
qed

lemma generator_shape:
  assumes "0 \<le> n" "int I < dim_N n"
  shows "is_mat (nat n) (nat n) (generator n I)"
proof -
  obtain i j where ij: "the_pair n I = (i, j)" by (cases "the_pair n I")
  have "pair_of n I = Inr (i, j)" using the_pair_props(1)[OF assms(1,2)] ij by simp
  then show ?thesis by (simp add: generator_def gen_mat_def is_mat_def mat_def list_all_iff)
qed

text \<open>
  Claim C5. For every \<open>n \<ge> 2\<close> the constructor succeeds, and for all indices
  \<open>I\<close>, \<open>J\<close>, \<open>K\<close> below \<open>N\<close> the structure constants it has built satisfy
  \<open>gamma[I,J,K] = - gamma[J,I,K]\<close> and \<open>gamma[I,I,K] = 0\<close>.
\<close>

theorem gamma_antisymmetric:
  assumes "2 \<le> n" "I < nat (dim_N n)" "J < nat (dim_N n)" "K < nat (dim_N n)"
  shows "\<exists>L. liegr_init n = Inr L \<and>
           liegr_gamma L ! I ! J ! K = - liegr_gamma L ! J ! I ! K \<and>
           liegr_gamma L ! I ! I ! K = 0"
proof -
  have "0 \<le> n" using assms(1) by simp
  from liegr_init_ok[OF this] obtain g where
    g: "liegr_init n = Inr \<lparr>liegr_N = dim_N n, liegr_n = n,
          liegr_T = map (generator n) [0..<nat (dim_N n)], liegr_gamma = g\<rparr>"
    and e: "\<forall>I<nat (dim_N n). \<forall>J<nat (dim_N n). \<forall>K<nat (dim_N n). g ! I ! J ! K = gamma_spec n I J K"
    by blast
  have "g ! I ! J ! K = - g ! J ! I ! K"
    using e assms(2-4) gamma_spec_antisym[of n I J K] by simp
  moreover have "g ! I ! I ! K = 0" using e assms(2-4) by (simp add: gamma_spec_diag)
  ultimately show ?thesis using g by simp
qed

theorem gamma_antisymmetric_witness:
  "\<exists>L. liegr_init 3 = Inr L \<and>
     liegr_gamma L ! 0 ! 1 ! 2 = - liegr_gamma L ! 1 ! 0 ! 2 \<and>
     liegr_gamma L ! 0 ! 0 ! 2 = 0"
  using gamma_antisymmetric[of 3 0 1 2] by (simp add: dim_N_eq)

section \<open>Matrix operations on nested lists\<close>

lemma mat_cong: "(\<And>a b. a < r \<Longrightarrow> b < c \<Longrightarrow> f a b = g a b) \<Longrightarrow> mat r c f = mat r c g"
  by (simp add: mat_def)

lemma is_mat_mat [simp]: "is_mat r c (mat r c f)"
  by (simp add: is_mat_def mat_def list_all_iff)

lemma is_mat_nth: "is_mat r c A \<Longrightarrow> a < r \<Longrightarrow> length (A ! a) = c"
  by (auto simp: is_mat_def list_all_length)

lemma is_mat_length: "is_mat r c A \<Longrightarrow> length A = r"
  by (simp add: is_mat_def)

lemma is_mat_eq_mat: "is_mat r c A \<Longrightarrow> A = mat r c (\<lambda>a b. A ! a ! b)"
  by (rule mat_eqI) (auto simp: is_mat_length is_mat_nth)

lemma mat_eq_iff:
  assumes "is_mat r c A" "is_mat r c B"
  shows "A = B \<longleftrightarrow> (\<forall>a<r. \<forall>b<c. A ! a ! b = B ! a ! b)"
proof
  assume "\<forall>a<r. \<forall>b<c. A ! a ! b = B ! a ! b"
  then have "mat r c (\<lambda>a b. A ! a ! b) = mat r c (\<lambda>a b. B ! a ! b)" by (intro mat_cong) auto
  then show "A = B" using is_mat_eq_mat[OF assms(1)] is_mat_eq_mat[OF assms(2)] by simp
qed auto

lemma ncols_square: "is_mat n n A \<Longrightarrow> ncols A = n"
  by (cases A) (auto simp: ncols_def is_mat_def)

lemma ncols_pos: "is_mat r c A \<Longrightarrow> 0 < r \<Longrightarrow> ncols A = c"
  by (cases A) (auto simp: ncols_def is_mat_def)

lemma matmul_square:
  assumes "is_mat n n A" "is_mat n n B"
  shows "matmul A B = mat n n (\<lambda>i j. \<Sum>k<n. A ! i ! k * B ! k ! j)"
  using assms by (simp add: matmul_def ncols_square is_mat_length)

lemma mat_sub_mat: "mat_sub (mat r c f) (mat r c g) = mat r c (\<lambda>a b. f a b - g a b)"
  by (rule mat_eqI) (simp_all add: mat_sub_def mat_def)

lemma mat_add_mat: "mat_add (mat r c f) (mat r c g) = mat r c (\<lambda>a b. f a b + g a b)"
  by (rule mat_eqI) (simp_all add: mat_add_def mat_def)

lemma mat_neg_mat: "mat_neg (mat r c f) = mat r c (\<lambda>a b. - f a b)"
  by (rule mat_eqI) (simp_all add: mat_neg_def mat_def)

lemma mat_scale_mat: "mat_scale x (mat r c f) = mat r c (\<lambda>a b. x * f a b)"
  by (rule mat_eqI) (simp_all add: mat_scale_def mat_def)

lemma mat_transpose_square:
  "is_mat n n A \<Longrightarrow> mat_transpose A = mat n n (\<lambda>a b. A ! b ! a)"
  by (simp add: mat_transpose_def ncols_square is_mat_length)

section \<open>The commutator of two generators\<close>

lemma unit_prod_sum:
  "j < m \<Longrightarrow> (\<Sum>c<m. unit_entry i j a c * unit_entry k l c b) = (if j = k then unit_entry i l a b else 0)"
proof -
  assume j: "j < m"
  have "(\<Sum>c<m. unit_entry i j a c * unit_entry k l c b)
        = (\<Sum>c<m. if c = j then unit_entry i j a j * unit_entry k l j b else 0)"
    by (intro sum.cong) (auto simp: unit_entry_def)
  also have "\<dots> = unit_entry i j a j * unit_entry k l j b" using j by simp
  also have "\<dots> = (if j = k then unit_entry i l a b else 0)" by (simp add: unit_entry_def)
  finally show ?thesis .
qed

lemma asym_prod_sum:
  assumes "i < m" "j < m"
  shows "(\<Sum>c<m. skew_unit i j a c * skew_unit k l c b) =
           (if j = k then unit_entry i l a b else 0) - (if j = l then unit_entry i k a b else 0)
         - (if i = k then unit_entry j l a b else 0) + (if i = l then unit_entry j k a b else 0)"
proof -
  have "(\<Sum>c<m. skew_unit i j a c * skew_unit k l c b) =
        (\<Sum>c<m. unit_entry i j a c * unit_entry k l c b) - (\<Sum>c<m. unit_entry i j a c * unit_entry l k c b)
      - (\<Sum>c<m. unit_entry j i a c * unit_entry k l c b) + (\<Sum>c<m. unit_entry j i a c * unit_entry l k c b)"
    by (simp add: skew_unit_def algebra_simps sum.distrib sum_subtractf)
  then show ?thesis using assms by (simp add: unit_prod_sum)
qed

lemma comm_asym:
  assumes "i < m" "j < m" "k < m" "l < m"
  shows "(\<Sum>c<m. skew_unit i j a c * skew_unit k l c b) - (\<Sum>c<m. skew_unit k l a c * skew_unit i j c b) =
           (if j = k then skew_unit i l a b else 0) - (if i = k then skew_unit j l a b else 0)
         - (if j = l then skew_unit i k a b else 0) + (if i = l then skew_unit j k a b else 0)"
  unfolding asym_prod_sum[OF assms(1,2)] asym_prod_sum[OF assms(3,4)]
  by (cases "j = k"; cases "i = k"; cases "j = l"; cases "i = l"; simp add: skew_unit_def)

lemma gen_sign_parity: "gen_sign i j = (if even (i + j) then - 1 else 1)"
  by (simp add: gen_sign_def power_int_minus_left)

lemma generator_asym:
  assumes "0 \<le> n" "int I < dim_N n" "a < nat n" "b < nat n"
  shows "generator n I ! a ! b =
           gen_sign (fst (the_pair n I)) (snd (the_pair n I)) *
           skew_unit (nat (fst (the_pair n I))) (nat (snd (the_pair n I))) a b"
proof -
  note p = the_pair_props[OF assms(1,2)]
  obtain i j where ij: "the_pair n I = (i, j)" by (cases "the_pair n I")
  define x where "x = nat i"
  define y where "y = nat j"
  have xy: "i = int x" "j = int y" "x < y" using p(2,3) by (simp_all add: ij x_def y_def)
  have "generator n I ! a ! b =
          (if a = x \<and> b = y then gen_sign i j else if a = y \<and> b = x then - gen_sign i j else 0)"
    unfolding generator_nth[OF assms] ij fst_conv snd_conv xy(1,2) by simp
  also have "\<dots> = gen_sign i j * skew_unit x y a b"
    using xy(3) by (simp add: skew_unit_def unit_entry_def)
  finally show ?thesis by (simp add: ij x_def y_def)
qed

lemma the_pair_idx:
  assumes "0 \<le> p" "p < q" "q < n"
  shows "the_pair n (nat (idx n p q)) = (p, q)"
  using pair_of_idx[OF assms] by (simp add: the_pair_eq)

lemma sum_sc_some:
  assumes n0: "0 \<le> n" and pq: "0 \<le> p" "p < q" "q < n"
    and e: "sc_entry n (the_pair n I) (the_pair n J) = Some (idx n p q, v)"
    and ab: "a < nat n" "b < nat n"
  shows "(\<Sum>K<nat (dim_N n). sc n I J K * generator n K ! a ! b)
         = v * (gen_sign p q * skew_unit (nat p) (nat q) a b)"
proof -
  define K0 where "K0 = nat (idx n p q)"
  have K0: "K0 < nat (dim_N n)" "int K0 < dim_N n"
    using idx_range[OF pq] by (simp_all add: K0_def)
  have "(\<Sum>K<nat (dim_N n). sc n I J K * generator n K ! a ! b)
        = (\<Sum>K<nat (dim_N n). if K = K0 then v * generator n K0 ! a ! b else 0)"
    by (intro sum.cong) (auto simp: sc_def e K0_def)
  also have "\<dots> = v * generator n K0 ! a ! b" using K0(1) by simp
  also have "generator n K0 ! a ! b = gen_sign p q * skew_unit (nat p) (nat q) a b"
    using generator_asym[OF n0 K0(2) ab] the_pair_idx[OF pq] by (simp add: K0_def)
  finally show ?thesis .
qed

lemma sum_sc_none:
  assumes "sc_entry n (the_pair n I) (the_pair n J) = None"
  shows "(\<Sum>K<N. sc n I J K * f K) = 0"
  using assms by (simp add: sc_def)

lemma generator_prod_sum:
  assumes n0: "0 \<le> n" and IN: "int I < dim_N n" and JN: "int J < dim_N n"
    and ab: "a < nat n" "b < nat n"
  shows "(\<Sum>c<nat n. generator n I ! a ! c * generator n J ! c ! b)
         = gen_sign (fst (the_pair n I)) (snd (the_pair n I)) *
           gen_sign (fst (the_pair n J)) (snd (the_pair n J)) *
           (\<Sum>c<nat n. skew_unit (nat (fst (the_pair n I))) (nat (snd (the_pair n I))) a c *
                        skew_unit (nat (fst (the_pair n J))) (nat (snd (the_pair n J))) c b)"
proof -
  have "(\<Sum>c<nat n. generator n I ! a ! c * generator n J ! c ! b)
        = (\<Sum>c<nat n. gen_sign (fst (the_pair n I)) (snd (the_pair n I)) *
           gen_sign (fst (the_pair n J)) (snd (the_pair n J)) *
           (skew_unit (nat (fst (the_pair n I))) (nat (snd (the_pair n I))) a c *
                        skew_unit (nat (fst (the_pair n J))) (nat (snd (the_pair n J))) c b))"
    using ab by (intro sum.cong) (simp_all add: generator_asym[OF n0 IN] generator_asym[OF n0 JN])
  then show ?thesis by (simp add: sum_distrib_left)
qed

lemma gen_sign_nat: "gen_sign (int x) (int y) = (if even (x + y) then - 1 else 1)"
  by (simp add: gen_sign_parity)

lemma commutator_entry_less:
  assumes n0: "0 \<le> n" and IJ: "I < J" and JN: "int J < dim_N n"
    and ab: "a < nat n" "b < nat n"
  shows "(\<Sum>c<nat n. generator n I ! a ! c * generator n J ! c ! b)
       - (\<Sum>c<nat n. generator n J ! a ! c * generator n I ! c ! b)
       = (\<Sum>K<nat (dim_N n). gamma_spec n I J K * generator n K ! a ! b)"
proof -
  have IN: "int I < dim_N n" using IJ JN by simp
  note pI = the_pair_props[OF n0 IN] and pJ = the_pair_props[OF n0 JN]
  obtain i j where ij: "the_pair n I = (i, j)" by (cases "the_pair n I")
  obtain k l where kl: "the_pair n J = (k, l)" by (cases "the_pair n J")
  have bd: "0 \<le> i" "i < j" "j < n" "0 \<le> k" "k < l" "l < n"
    using pI(2-4) pJ(2-4) by (simp_all add: ij kl)
  have ord: "i < k \<or> (i = k \<and> j < l)" using pair_order[OF n0 IJ JN] by (simp add: ij kl)
  define m where "m = nat n"
  define x where "x = nat i"
  define y where "y = nat j"
  define z where "z = nat k"
  define w where "w = nat l"
  have cast: "i = int x" "j = int y" "k = int z" "l = int w"
    using bd by (simp_all add: x_def y_def z_def w_def)
  have lt: "x < m" "y < m" "z < m" "w < m" using bd by (simp_all add: m_def x_def y_def z_def w_def)
  have xy: "x < y" "z < w" using bd by (simp_all add: x_def y_def z_def w_def)
  have ordn: "x < z \<or> (x = z \<and> y < w)" using ord bd by (auto simp: x_def y_def z_def w_def)
  have lhs: "(\<Sum>c<nat n. generator n I ! a ! c * generator n J ! c ! b)
       - (\<Sum>c<nat n. generator n J ! a ! c * generator n I ! c ! b)
       = gen_sign (int x) (int y) * gen_sign (int z) (int w) *
         ((if y = z then skew_unit x w a b else 0)
          - (if x = z then skew_unit y w a b else 0)
          - (if y = w then skew_unit x z a b else 0)
          + (if x = w then skew_unit y z a b else 0))"
  proof -
    have 1: "(\<Sum>c<nat n. generator n I ! a ! c * generator n J ! c ! b)
          = gen_sign i j * gen_sign k l * (\<Sum>c<m. skew_unit x y a c * skew_unit z w c b)"
      using generator_prod_sum[OF n0 IN JN ab] by (simp add: ij kl m_def x_def y_def z_def w_def)
    have 2: "(\<Sum>c<nat n. generator n J ! a ! c * generator n I ! c ! b)
          = gen_sign i j * gen_sign k l * (\<Sum>c<m. skew_unit z w a c * skew_unit x y c b)"
      using generator_prod_sum[OF n0 JN IN ab] by (simp add: ij kl m_def x_def y_def z_def w_def)
    show ?thesis
      unfolding 1 2 comm_asym[OF lt, symmetric] cast by (simp add: algebra_simps)
  qed
  have rhs: "(\<Sum>K<nat (dim_N n). gamma_spec n I J K * generator n K ! a ! b)
           = (\<Sum>K<nat (dim_N n). sc n I J K * generator n K ! a ! b)"
    using IJ by (simp add: gamma_spec_def)
  have some: "(\<Sum>K<nat (dim_N n). sc n I J K * generator n K ! a ! b)
              = v * (gen_sign (int p) (int q) * skew_unit p q a b)"
    if "sc_entry n (the_pair n I) (the_pair n J) = Some (idx n (int p) (int q), v)" "p < q" "q < m"
    for p q v
    using sum_sc_some[OF n0 _ _ _ that(1) ab] that(2,3) by (simp add: m_def)
  consider (row) "x = z" "y < w" | (col) "x < z" "y = w" | (chain) "x < z" "y = z"
    | (none) "x < z" "y \<noteq> w" "y \<noteq> z"
    using ordn by fastforce
  then show ?thesis
  proof cases
    case row
    have e: "sc_entry n (the_pair n I) (the_pair n J) = Some (idx n (int y) (int w), 1)"
      using row by (simp add: sc_entry_def ij kl cast)
    have c: "y \<noteq> z" "y \<noteq> w" "x \<noteq> w" using row xy by simp_all
    show ?thesis
      unfolding lhs rhs some[OF e row(2) lt(4)] using row c by (simp add: gen_sign_nat)
  next
    case col
    have e: "sc_entry n (the_pair n I) (the_pair n J) = Some (idx n (int x) (int z), 1)"
      using col by (simp add: sc_entry_def ij kl cast)
    have c: "y \<noteq> z" "x \<noteq> z" "x \<noteq> w" using col xy by simp_all
    show ?thesis
      unfolding lhs rhs some[OF e col(1) lt(3)] using col c by (simp add: gen_sign_nat)
  next
    case chain
    have e: "sc_entry n (the_pair n I) (the_pair n J) = Some (idx n (int x) (int w), - 1)"
      using chain xy by (simp add: sc_entry_def ij kl cast)
    have c: "y \<noteq> w" "x \<noteq> z" "x \<noteq> w" "x < w" using chain xy by simp_all
    show ?thesis
      unfolding lhs rhs some[OF e c(4) lt(4)] using chain c by (simp add: gen_sign_nat)
  next
    case none
    have e: "sc_entry n (the_pair n I) (the_pair n J) = None"
      using none by (simp add: sc_entry_def ij kl cast)
    have c: "x \<noteq> z" "x \<noteq> w" using none xy by simp_all
    show ?thesis unfolding lhs rhs sum_sc_none[OF e] using none c by simp
  qed
qed

lemma commutator_entry:
  assumes n0: "0 \<le> n" and IN: "int I < dim_N n" and JN: "int J < dim_N n"
    and ab: "a < nat n" "b < nat n"
  shows "(\<Sum>c<nat n. generator n I ! a ! c * generator n J ! c ! b)
       - (\<Sum>c<nat n. generator n J ! a ! c * generator n I ! c ! b)
       = (\<Sum>K<nat (dim_N n). gamma_spec n I J K * generator n K ! a ! b)"
proof -
  consider "I < J" | "J < I" | "I = J" by linarith
  then show ?thesis
  proof cases
    case 1
    then show ?thesis by (rule commutator_entry_less[OF n0 _ JN ab])
  next
    case 2
    have "(\<Sum>K<nat (dim_N n). gamma_spec n I J K * generator n K ! a ! b)
          = - (\<Sum>K<nat (dim_N n). gamma_spec n J I K * generator n K ! a ! b)"
      unfolding sum_negf[symmetric] by (intro sum.cong) (simp_all add: gamma_spec_antisym[of n I J])
    then show ?thesis using commutator_entry_less[OF n0 2 IN ab] by simp
  next
    case 3
    then show ?thesis by (simp add: gamma_spec_diag)
  qed
qed

text \<open>
  Claim C1. The commutator of two constructed generators is the combination of the
  generators with the constructed structure constants as coefficients:
  \<open>T\<^sub>I T\<^sub>J - T\<^sub>J T\<^sub>I = \<Sum>\<^sub>K gamma[I,J,K] T\<^sub>K\<close>. It holds over the reals, for every
  \<open>n \<ge> 2\<close> and so for the four dimensions 2, 3, 4 and 5 that the specification names.
\<close>

theorem commutator_identity:
  assumes "2 \<le> n" "I < nat (dim_N n)" "J < nat (dim_N n)"
  shows "\<exists>L. liegr_init n = Inr L \<and>
           mat_sub (matmul (liegr_T L ! I) (liegr_T L ! J)) (matmul (liegr_T L ! J) (liegr_T L ! I))
           = einsum_j_jkl (nat n) (liegr_gamma L ! I ! J) (liegr_T L)"
proof -
  have n0: "0 \<le> n" using assms(1) by simp
  define N where "N = nat (dim_N n)"
  define m where "m = nat n"
  define T where "T = map (generator n) [0..<N]"
  from liegr_init_ok[OF n0] obtain g where
    L: "liegr_init n = Inr \<lparr>liegr_N = dim_N n, liegr_n = n, liegr_T = T, liegr_gamma = g\<rparr>"
    and e: "\<And>I J K. I < N \<Longrightarrow> J < N \<Longrightarrow> K < N \<Longrightarrow> g ! I ! J ! K = gamma_spec n I J K"
    unfolding N_def T_def by blast
  have IN: "int I < dim_N n" "int J < dim_N n" "I < N" "J < N"
    using assms(2,3) by (simp_all add: N_def)
  have TI: "T ! I = generator n I" "T ! J = generator n J" using IN by (simp_all add: T_def)
  have sh: "is_mat m m (generator n I)" "is_mat m m (generator n J)"
    unfolding m_def by (rule generator_shape[OF n0 IN(1)], rule generator_shape[OF n0 IN(2)])
  have "mat_sub (matmul (T ! I) (T ! J)) (matmul (T ! J) (T ! I))
        = mat m m (\<lambda>a b. (\<Sum>c<m. generator n I ! a ! c * generator n J ! c ! b)
                         - (\<Sum>c<m. generator n J ! a ! c * generator n I ! c ! b))"
    unfolding TI matmul_square[OF sh(1) sh(2)] matmul_square[OF sh(2) sh(1)] mat_sub_mat ..
  also have "\<dots> = mat m m (\<lambda>a b. \<Sum>K<N. gamma_spec n I J K * generator n K ! a ! b)"
    unfolding m_def N_def by (intro mat_cong commutator_entry n0 IN)
  also have "\<dots> = einsum_j_jkl m (g ! I ! J) T"
    unfolding einsum_j_jkl_def
    by (intro mat_cong sum.cong) (simp_all add: T_def e IN)
  finally show ?thesis using L by (simp add: m_def)
qed

theorem commutator_identity_witness:
  "\<exists>L. liegr_init 3 = Inr L \<and>
     mat_sub (matmul (liegr_T L ! 0) (liegr_T L ! 1)) (matmul (liegr_T L ! 1) (liegr_T L ! 0))
     = einsum_j_jkl (nat 3) (liegr_gamma L ! 0 ! 1) (liegr_T L)"
  using commutator_identity[of 3 0 1] by (simp add: dim_N_eq)

section \<open>The enumeration of the pairs\<close>

lemma tri_nonneg: "0 \<le> i \<Longrightarrow> i \<le> n - 1 \<Longrightarrow> 0 \<le> tri n i"
  using tri_mono[of 0 i n] by simp

lemma tri_n: "tri n n = dim_N n"
  by (simp add: tri_def dim_N_eq algebra_simps)

lemma the_pair_row:
  assumes "i < m" "d < m - Suc i"
  shows "the_pair (int m) (nat (tri (int m) (int i)) + d) = (int i, int (Suc i + d))"
proof -
  have t0: "0 \<le> tri (int m) (int i)" using assms by (intro tri_nonneg) auto
  have "idx (int m) (int i) (int (Suc i + d)) = tri (int m) (int i) + int d"
    by (simp add: idx_def)
  then have "nat (idx (int m) (int i) (int (Suc i + d))) = nat (tri (int m) (int i)) + d"
    using t0 by (simp add: nat_add_distrib)
  moreover have "the_pair (int m) (nat (idx (int m) (int i) (int (Suc i + d)))) = (int i, int (Suc i + d))"
    using assms by (intro the_pair_idx) auto
  ultimately show ?thesis by simp
qed

lemma upper_rows:
  assumes "i \<le> m"
  shows "concat (map (\<lambda>i. map (\<lambda>j. (int i, int j)) [Suc i..<m]) [0..<i])
         = map (the_pair (int m)) [0..<nat (tri (int m) (int i))]"
  using assms
proof (induction i)
  case 0
  then show ?case by simp
next
  case (Suc i)
  define t where "t = nat (tri (int m) (int i))"
  define k where "k = m - Suc i"
  have im: "i < m" using Suc.prems by simp
  have t0: "0 \<le> tri (int m) (int i)" using im by (intro tri_nonneg) auto
  have "int m - int i - 1 = int k" using im by (simp add: k_def)
  then have "tri (int m) (int i + 1) = tri (int m) (int i) + int k"
    using tri_Suc[of "int m" "int i"] by simp
  then have "nat (tri (int m) (int i + 1)) = t + k"
    using t0 by (simp only: t_def nat_add_distrib nat_int of_nat_0_le_iff)
  then have t1: "nat (tri (int m) (int (Suc i))) = t + k"
    by (simp only: of_nat_Suc add.commute)
  have row: "map (the_pair (int m)) [t..<t + k] = map (\<lambda>j. (int i, int j)) [Suc i..<m]"
  proof (rule nth_equalityI)
    show "length (map (the_pair (int m)) [t..<t + k]) = length (map (\<lambda>j. (int i, int j)) [Suc i..<m])"
      by (simp add: k_def)
    fix d assume "d < length (map (the_pair (int m)) [t..<t + k])"
    then have d: "d < k" by simp
    have "the_pair (int m) (t + d) = (int i, int (Suc i + d))"
      unfolding t_def using im d by (intro the_pair_row) (simp_all add: k_def)
    moreover have "[t..<t + k] ! d = t + d" using d by simp
    moreover have "[Suc i..<m] ! d = Suc i + d" using d by (simp add: k_def)
    ultimately show "map (the_pair (int m)) [t..<t + k] ! d = map (\<lambda>j. (int i, int j)) [Suc i..<m] ! d"
      using d by (simp add: k_def)
  qed
  have split: "[0..<t + k] = [0..<t] @ [t..<t + k]"
    by (rule upt_add_eq_append) simp
  have ih: "concat (map (\<lambda>i. map (\<lambda>j. (int i, int j)) [Suc i..<m]) [0..<i]) = map (the_pair (int m)) [0..<t]"
    unfolding t_def using im by (intro Suc.IH) simp
  have "concat (map (\<lambda>i. map (\<lambda>j. (int i, int j)) [Suc i..<m]) [0..<Suc i])
        = map (the_pair (int m)) [0..<t] @ map (\<lambda>j. (int i, int j)) [Suc i..<m]"
    by (simp add: ih)
  also have "\<dots> = map (the_pair (int m)) [0..<t + k]"
    unfolding split map_append row ..
  finally show ?case unfolding t1 .
qed

lemma upper_pairs_eq:
  "map (the_pair (int m)) [0..<nat (dim_N (int m))] = upper_pairs m"
  using upper_rows[of m m] by (simp add: upper_pairs_def tri_n)

lemma the_pair_bij:
  assumes "0 \<le> n"
  shows "bij_betw (the_pair n) {..<nat (dim_N n)} {(i, j). 0 \<le> i \<and> i < j \<and> j < n}"
proof (rule bij_betw_byWitness[where f' = "\<lambda>(i, j). nat (idx n i j)"])
  show "\<forall>I\<in>{..<nat (dim_N n)}. (case the_pair n I of (i, j) \<Rightarrow> nat (idx n i j)) = I"
  proof
    fix I assume "I \<in> {..<nat (dim_N n)}"
    then have "int I < dim_N n" by simp
    from the_pair_props(5)[OF assms this]
    show "(case the_pair n I of (i, j) \<Rightarrow> nat (idx n i j)) = I" by (simp add: case_prod_beta)
  qed
  show "\<forall>p\<in>{(i, j). 0 \<le> i \<and> i < j \<and> j < n}. the_pair n (case p of (i, j) \<Rightarrow> nat (idx n i j)) = p"
  proof
    fix p :: "int \<times> int" assume p: "p \<in> {(i, j). 0 \<le> i \<and> i < j \<and> j < n}"
    obtain i j where ij: "p = (i, j)" by (cases p)
    with p have "0 \<le> i" "i < j" "j < n" by simp_all
    from the_pair_idx[OF this] show "the_pair n (case p of (i, j) \<Rightarrow> nat (idx n i j)) = p"
      by (simp add: ij)
  qed
  show "the_pair n ` {..<nat (dim_N n)} \<subseteq> {(i, j). 0 \<le> i \<and> i < j \<and> j < n}"
  proof
    fix p assume "p \<in> the_pair n ` {..<nat (dim_N n)}"
    then obtain I where I: "p = the_pair n I" "int I < dim_N n" by auto
    from the_pair_props(2-4)[OF assms I(2)]
    show "p \<in> {(i, j). 0 \<le> i \<and> i < j \<and> j < n}" by (simp add: I(1) case_prod_beta)
  qed
  show "(\<lambda>(i, j). nat (idx n i j)) ` {(i, j). 0 \<le> i \<and> i < j \<and> j < n} \<subseteq> {..<nat (dim_N n)}"
  proof
    fix K assume "K \<in> (\<lambda>(i, j). nat (idx n i j)) ` {(i, j). 0 \<le> i \<and> i < j \<and> j < n}"
    then obtain i j where ij: "K = nat (idx n i j)" "0 \<le> i" "i < j" "j < n" by auto
    from idx_range[OF ij(2-4)] show "K \<in> {..<nat (dim_N n)}" by (simp add: ij(1))
  qed
qed

section \<open>Claims about the generator basis\<close>

text \<open>
  Claim C6, as the specification states it, gives every generator the entry \<open>+1\<close> at
  \<open>(i, j)\<close>. The constructor stores \<open>(-1)\<^sup>i\<^sup>+\<^sup>j\<^sup>+\<^sup>1\<close> there: for \<open>n = 3\<close> the index \<open>1\<close> has the
  pair \<open>(0, 2)\<close>, and the generator \<open>T[1]\<close> has \<open>-1\<close> at \<open>(0, 2)\<close> and \<open>+1\<close> at \<open>(2, 0)\<close>.
\<close>

theorem generator_entry_counterexample:
  "pair_of 3 1 = Inr (0, 2) \<and>
   liegr_init 3 = Inr \<lparr>liegr_N = 3, liegr_n = 3,
     liegr_T = [[[0, 1, 0], [- 1, 0, 0], [0, 0, 0]],
                [[0, 0, - 1], [0, 0, 0], [1, 0, 0]],
                [[0, 0, 0], [0, 0, 1], [0, - 1, 0]]],
     liegr_gamma = [[[0, 0, 0], [0, 0, 1], [0, - 1, 0]],
                    [[0, 0, - 1], [0, 0, 0], [1, 0, 0]],
                    [[0, 1, 0], [- 1, 0, 0], [0, 0, 0]]]\<rparr>"
  by code_simp

text \<open>
  Claim C6, amended. For every \<open>n \<ge> 2\<close> and every \<open>I < N\<close> the constructor succeeds; the
  pair \<open>(i, j)\<close> that the closed form assigns to \<open>I\<close> is the \<open>I\<close>-th pair of the row-major
  enumeration of the upper triangle, \<open>0 \<le> i < j < n\<close>; the generator \<open>T[I]\<close> is the
  \<open>n \<times> n\<close> matrix with \<open>(-1)\<^sup>i\<^sup>+\<^sup>j\<^sup>+\<^sup>1\<close> at \<open>(i, j)\<close>, the negated value at \<open>(j, i)\<close> and zero
  elsewhere; and the index map is a bijection from the indices below \<open>N\<close> to these pairs.
\<close>

theorem generator_entries:
  assumes "2 \<le> n" "I < nat (dim_N n)"
  shows "\<exists>L i j. liegr_init n = Inr L \<and> pair_of n I = Inr (i, j) \<and>
           upper_pairs (nat n) ! I = (i, j) \<and> 0 \<le> i \<and> i < j \<and> j < n \<and>
           liegr_T L ! I =
             mat (nat n) (nat n) (\<lambda>a b.
               if int a = i \<and> int b = j then (- 1) ^ nat (i + j + 1)
               else if int a = j \<and> int b = i then - ((- 1) ^ nat (i + j + 1))
               else 0) \<and>
           bij_betw (the_pair n) {..<nat (dim_N n)} {(i, j). 0 \<le> i \<and> i < j \<and> j < n}"
proof -
  have n0: "0 \<le> n" using assms(1) by simp
  have IN: "int I < dim_N n" using assms(2) by simp
  from liegr_init_ok[OF n0] obtain g where
    L: "liegr_init n = Inr \<lparr>liegr_N = dim_N n, liegr_n = n,
          liegr_T = map (generator n) [0..<nat (dim_N n)], liegr_gamma = g\<rparr>"
    by blast
  obtain i j where ij: "the_pair n I = (i, j)" by (cases "the_pair n I")
  note p = the_pair_props[OF n0 IN]
  have b: "pair_of n I = Inr (i, j)" "0 \<le> i" "i < j" "j < n" using p by (simp_all add: ij)
  have "map (the_pair (int (nat n))) [0..<nat (dim_N (int (nat n)))] ! I = upper_pairs (nat n) ! I"
    by (simp only: upper_pairs_eq)
  then have u: "upper_pairs (nat n) ! I = (i, j)" using n0 assms(2) by (simp add: ij)
  have s: "gen_sign i j = (- 1) ^ nat (i + j + 1)"
    using b by (simp add: gen_sign_def power_int_def)
  have T: "map (generator n) [0..<nat (dim_N n)] ! I =
             mat (nat n) (nat n) (\<lambda>a b.
               if int a = i \<and> int b = j then (- 1) ^ nat (i + j + 1)
               else if int a = j \<and> int b = i then - ((- 1) ^ nat (i + j + 1))
               else 0)"
    unfolding s[symmetric] using assms(2) by (simp add: generator_def b(1) gen_mat_def)
  show ?thesis using L b u T the_pair_bij[OF n0] by auto
qed

theorem generator_entries_witness:
  "\<exists>L i j. liegr_init 3 = Inr L \<and> pair_of 3 1 = Inr (i, j) \<and>
           upper_pairs (nat 3) ! 1 = (i, j) \<and> 0 \<le> i \<and> i < j \<and> j < 3 \<and>
           liegr_T L ! 1 =
             mat (nat 3) (nat 3) (\<lambda>a b.
               if int a = i \<and> int b = j then (- 1) ^ nat (i + j + 1)
               else if int a = j \<and> int b = i then - ((- 1) ^ nat (i + j + 1))
               else 0) \<and>
           bij_betw (the_pair 3) {..<nat (dim_N 3)} {(i, j). 0 \<le> i \<and> i < j \<and> j < 3}"
  using generator_entries[of 3 1] by (simp add: dim_N_eq)

section \<open>Claims about invalid dimensions\<close>

text \<open>
  Claim C9, as the specification states it, makes the construction fail for \<open>n < 2\<close>.
  For \<open>n = 1\<close> the constructor raises nothing: \<open>N\<close> is \<open>0\<close>, both loops are empty, and the
  basis and the structure constants are empty arrays.
\<close>

theorem invalid_dimension_counterexample:
  "liegr_init 1 = Inr \<lparr>liegr_N = 0, liegr_n = 1, liegr_T = [], liegr_gamma = []\<rparr>"
  by code_simp

text \<open>
  Claim C9, amended. For \<open>n < 2\<close> the construction of the basis and the structure
  constants has no check of its own. For \<open>n = 0\<close> and \<open>n = 1\<close> it succeeds with \<open>N = 0\<close>
  and empty arrays. For \<open>n < 0\<close> it fails at construction time with the
  \<^verbatim>\<open>ValueError\<close> that \<^verbatim>\<open>np.zeros\<close> raises on a negative dimension.
\<close>

theorem invalid_dimension:
  assumes "n < 2"
  shows "liegr_init n =
           (if n < 0 then Inl ValueError
            else Inr \<lparr>liegr_N = 0, liegr_n = n, liegr_T = [], liegr_gamma = []\<rparr>)"
proof (cases "n < 0")
  case True
  then show ?thesis by (simp add: liegr_init_def build_T_neg)
next
  case False
  with assms have "n = 0 \<or> n = 1" by auto
  then have N: "dim_N n = 0" by (auto simp: dim_N_eq)
  show ?thesis using False
    by (simp add: liegr_init_def build_T_def build_gamma_def N np_zeros3_def)
qed

theorem invalid_dimension_witness:
  "liegr_init 0 = Inr \<lparr>liegr_N = 0, liegr_n = 0, liegr_T = [], liegr_gamma = []\<rparr>"
  using invalid_dimension[of 0] by simp

section \<open>Orthogonality of the generators and recovery of coefficients\<close>

lemma unit_entry_sum2:
  assumes "x < m" "y < m"
  shows "(\<Sum>a<m. \<Sum>b<m. unit_entry x y a b * f a b) = f x y"
proof -
  have "(\<Sum>a<m. \<Sum>b<m. unit_entry x y a b * f a b) = (\<Sum>a<m. if a = x then f x y else 0)"
  proof (rule sum.cong[OF refl])
    fix a assume "a \<in> {..<m}"
    have "(\<Sum>b<m. unit_entry x y a b * f a b) = (\<Sum>b<m. if b = y then unit_entry x y a y * f a y else 0)"
      by (intro sum.cong) (auto simp: unit_entry_def)
    also have "\<dots> = unit_entry x y a y * f a y" using assms(2) by simp
    finally show "(\<Sum>b<m. unit_entry x y a b * f a b) = (if a = x then f x y else 0)"
      by (simp add: unit_entry_def)
  qed
  also have "\<dots> = f x y" using assms(1) by simp
  finally show ?thesis .
qed

lemma skew_unit_sum2:
  assumes "x < m" "y < m"
  shows "(\<Sum>a<m. \<Sum>b<m. skew_unit x y a b * f a b) = f x y - f y x"
proof -
  have "(\<Sum>a<m. \<Sum>b<m. skew_unit x y a b * f a b)
        = (\<Sum>a<m. \<Sum>b<m. unit_entry x y a b * f a b) - (\<Sum>a<m. \<Sum>b<m. unit_entry y x a b * f a b)"
    by (simp add: skew_unit_def left_diff_distrib sum_subtractf)
  then show ?thesis using assms by (simp add: unit_entry_sum2)
qed

lemma skew_unit_upper:
  assumes "x < y" "z < w"
  shows "skew_unit x y z w = (if x = z \<and> y = w then 1 else 0)"
  unfolding skew_unit_def unit_entry_def using assms by auto

lemma skew_unit_lower:
  assumes "x < y" "z < w"
  shows "skew_unit x y w z = (if x = z \<and> y = w then - 1 else 0)"
  unfolding skew_unit_def unit_entry_def using assms by auto

lemma skew_unit_diag [simp]: "skew_unit x y z z = 0"
  by (simp add: skew_unit_def unit_entry_def)

lemma the_pair_inj:
  assumes "0 \<le> n" "int I < dim_N n" "int J < dim_N n" "the_pair n I = the_pair n J"
  shows "I = J"
proof -
  have "int I = idx n (fst (the_pair n I)) (snd (the_pair n I))"
    using the_pair_props(5)[OF assms(1,2)] by (rule sym)
  also have "\<dots> = idx n (fst (the_pair n J)) (snd (the_pair n J))"
    by (simp only: assms(4))
  also have "\<dots> = int J" by (rule the_pair_props(5)[OF assms(1,3)])
  finally show ?thesis by (simp only: of_nat_eq_iff)
qed

lemma the_pair_nat_eq:
  assumes n0: "0 \<le> n" and IN: "int I < dim_N n" and JN: "int J < dim_N n"
  shows "nat (fst (the_pair n I)) = nat (fst (the_pair n J)) \<and>
         nat (snd (the_pair n I)) = nat (snd (the_pair n J)) \<longleftrightarrow> I = J"
proof -
  note pI = the_pair_props[OF n0 IN] and pJ = the_pair_props[OF n0 JN]
  have "the_pair n I = the_pair n J \<longleftrightarrow> I = J"
    using the_pair_inj[OF n0 IN JN] by auto
  moreover have "the_pair n I = the_pair n J \<longleftrightarrow>
      nat (fst (the_pair n I)) = nat (fst (the_pair n J)) \<and>
      nat (snd (the_pair n I)) = nat (snd (the_pair n J))"
    using pI(2,3) pJ(2,3) by (auto simp: prod_eq_iff)
  ultimately show ?thesis by simp
qed

lemma the_pair_nat_bounds:
  assumes "0 \<le> n" "int I < dim_N n"
  shows "nat (fst (the_pair n I)) < nat (snd (the_pair n I))" "nat (snd (the_pair n I)) < nat n"
  using the_pair_props(2-4)[OF assms] by simp_all

lemma gen_sign_square [simp]: "gen_sign i j * gen_sign i j = 1"
  by (simp add: gen_sign_parity)

lemma generator_frobenius:
  assumes n0: "0 \<le> n" and IN: "int I < dim_N n" and JN: "int J < dim_N n"
  shows "(\<Sum>a<nat n. \<Sum>b<nat n. generator n I ! a ! b * generator n J ! a ! b)
         = (if I = J then 2 else 0)"
proof -
  define x where "x = nat (fst (the_pair n I))"
  define y where "y = nat (snd (the_pair n I))"
  define z where "z = nat (fst (the_pair n J))"
  define w where "w = nat (snd (the_pair n J))"
  define sI where "sI = gen_sign (fst (the_pair n I)) (snd (the_pair n I))"
  define sJ where "sJ = gen_sign (fst (the_pair n J)) (snd (the_pair n J))"
  have b: "x < y" "y < nat n" "z < w" "w < nat n"
    using the_pair_nat_bounds[OF n0 IN] the_pair_nat_bounds[OF n0 JN]
    by (simp_all add: x_def y_def z_def w_def)
  have eq: "x = z \<and> y = w \<longleftrightarrow> I = J"
    unfolding x_def y_def z_def w_def by (rule the_pair_nat_eq[OF n0 IN JN])
  have "(\<Sum>a<nat n. \<Sum>b<nat n. generator n I ! a ! b * generator n J ! a ! b)
        = (\<Sum>a<nat n. \<Sum>b<nat n. skew_unit x y a b * (sI * sJ * skew_unit z w a b))"
    by (intro sum.cong refl)
       (simp add: generator_asym[OF n0 IN] generator_asym[OF n0 JN] x_def y_def z_def w_def sI_def sJ_def)
  also have "\<dots> = sI * sJ * skew_unit z w x y - sI * sJ * skew_unit z w y x"
    using b by (subst skew_unit_sum2) simp_all
  also have "\<dots> = (if I = J then 2 else 0)"
  proof (cases "I = J")
    case True
    then have "x = z" "y = w" "sI = sJ" by (simp_all add: x_def y_def z_def w_def sI_def sJ_def)
    moreover have "skew_unit z w z w = 1" "skew_unit z w w z = - 1"
      by (simp_all add: skew_unit_upper[OF b(3) b(3)] skew_unit_lower[OF b(3) b(3)])
    ultimately show ?thesis using True by (simp add: sJ_def)
  next
    case False
    then have ne: "\<not> (z = x \<and> w = y)" using eq by auto
    have "skew_unit z w x y = 0" "skew_unit z w y x = 0"
      using ne by (simp_all add: skew_unit_upper[OF b(3) b(1)] skew_unit_lower[OF b(3) b(1)])
    then show ?thesis using False by simp
  qed
  finally show ?thesis .
qed

lemma lin_comb_nth:
  assumes "a < m" "b < m"
  shows "einsum_j_jkl m x (map (generator n) [0..<N]) ! a ! b
         = (\<Sum>K<N. x ! K * generator n K ! a ! b)"
  using assms by (simp add: einsum_j_jkl_def)

lemma alg_coeffs_nth:
  assumes "L < N"
  shows "alg_coeffs m X (map (generator n) [0..<N]) ! L
         = (\<Sum>a<m. \<Sum>b<m. X ! a ! b * generator n L ! a ! b) / 2"
  using assms by (simp add: alg_coeffs_def einsum_jk_ljk_def)

lemma length_alg_coeffs [simp]: "length (alg_coeffs m X T) = length T"
  by (simp add: alg_coeffs_def einsum_jk_ljk_def)

lemma coeffs_of_lin_comb:
  assumes n0: "0 \<le> n" and L: "L < nat (dim_N n)"
  shows "alg_coeffs (nat n) (einsum_j_jkl (nat n) x (map (generator n) [0..<nat (dim_N n)]))
           (map (generator n) [0..<nat (dim_N n)]) ! L = x ! L"
proof -
  define N where "N = nat (dim_N n)"
  define m where "m = nat n"
  define G where "G = (\<lambda>K a b. generator n K ! a ! b)"
  have LN: "int L < dim_N n" using L by simp
  have "(\<Sum>a<m. \<Sum>b<m. einsum_j_jkl m x (map (generator n) [0..<N]) ! a ! b * G L a b)
        = (\<Sum>a<m. \<Sum>b<m. \<Sum>K<N. x ! K * (G K a b * G L a b))"
    by (intro sum.cong refl) (simp add: lin_comb_nth G_def sum_distrib_right mult.assoc)
  also have "\<dots> = (\<Sum>a<m. \<Sum>K<N. \<Sum>b<m. x ! K * (G K a b * G L a b))"
    by (rule sum.cong[OF refl]) (rule sum.swap)
  also have "\<dots> = (\<Sum>K<N. \<Sum>a<m. \<Sum>b<m. x ! K * (G K a b * G L a b))"
    by (rule sum.swap)
  also have "\<dots> = (\<Sum>K<N. x ! K * (\<Sum>a<m. \<Sum>b<m. G K a b * G L a b))"
    by (simp add: sum_distrib_left)
  also have "\<dots> = (\<Sum>K<N. x ! K * (if K = L then 2 else 0))"
    unfolding G_def m_def N_def
    by (intro sum.cong refl) (simp add: generator_frobenius[OF n0 _ LN])
  also have "\<dots> = (\<Sum>K<N. if K = L then 2 * x ! L else 0)"
    by (intro sum.cong refl) simp
  also have "\<dots> = 2 * x ! L" using L by (simp add: N_def)
  finally show ?thesis
    using L unfolding N_def[symmetric] m_def[symmetric] by (simp add: alg_coeffs_nth G_def)
qed

lemma mat_trace_mat: "mat_trace (mat m m f) = (\<Sum>i<m. f i i)"
  by (simp add: mat_trace_def)

lemma generator_trace:
  assumes n0: "0 \<le> n" and IN: "int I < dim_N n" and JN: "int J < dim_N n"
  shows "mat_trace (matmul (mat_transpose (generator n I)) (generator n J)) = (if I = J then 2 else 0)"
proof -
  define m where "m = nat n"
  have sh: "is_mat m m (generator n I)" "is_mat m m (generator n J)"
    unfolding m_def by (rule generator_shape[OF n0 IN], rule generator_shape[OF n0 JN])
  have tr: "mat_transpose (generator n I) = mat m m (\<lambda>a b. generator n I ! b ! a)"
    by (rule mat_transpose_square[OF sh(1)])
  have "matmul (mat_transpose (generator n I)) (generator n J)
        = mat m m (\<lambda>i j. \<Sum>k<m. mat m m (\<lambda>a b. generator n I ! b ! a) ! i ! k * generator n J ! k ! j)"
    unfolding tr by (rule matmul_square[OF is_mat_mat sh(2)])
  then have "mat_trace (matmul (mat_transpose (generator n I)) (generator n J))
        = (\<Sum>i<m. \<Sum>k<m. generator n I ! k ! i * generator n J ! k ! i)"
    by (simp add: mat_trace_mat)
  also have "\<dots> = (\<Sum>k<m. \<Sum>i<m. generator n I ! k ! i * generator n J ! k ! i)"
    by (rule sum.swap)
  also have "\<dots> = (if I = J then 2 else 0)"
    unfolding m_def by (rule generator_frobenius[OF n0 IN JN])
  finally show ?thesis .
qed

text \<open>
  Claim C10. For every \<open>n \<ge> 2\<close> the constructed generators are orthogonal under the
  Frobenius inner product with squared norm 2: \<open>trace(T\<^sub>I\<^sup>T T\<^sub>J)\<close> is 2 for \<open>I = J\<close> and 0
  otherwise. So the contraction \<open>x\<^sub>I = \<Sum>\<^sub>j\<^sub>k X[j,k] T\<^sub>I[j,k] / 2\<close> of lines 196 and 365
  returns the coefficients \<open>x\<close> from which \<open>X = \<Sum>\<^sub>I x\<^sub>I T\<^sub>I\<close> was formed.
\<close>

theorem generators_orthogonal:
  assumes "2 \<le> n" "I < nat (dim_N n)" "J < nat (dim_N n)" "length x = nat (dim_N n)"
  shows "\<exists>L. liegr_init n = Inr L \<and>
           mat_trace (matmul (mat_transpose (liegr_T L ! I)) (liegr_T L ! J)) = (if I = J then 2 else 0) \<and>
           alg_coeffs (nat n) (einsum_j_jkl (nat n) x (liegr_T L)) (liegr_T L) = x"
proof -
  have n0: "0 \<le> n" using assms(1) by simp
  define T where "T = map (generator n) [0..<nat (dim_N n)]"
  from liegr_init_ok[OF n0] obtain g where
    L: "liegr_init n = Inr \<lparr>liegr_N = dim_N n, liegr_n = n, liegr_T = T, liegr_gamma = g\<rparr>"
    unfolding T_def by blast
  have IN: "int I < dim_N n" "int J < dim_N n" using assms(2,3) by simp_all
  have 1: "mat_trace (matmul (mat_transpose (T ! I)) (T ! J)) = (if I = J then 2 else 0)"
    using generator_trace[OF n0 IN] assms(2,3) by (simp add: T_def)
  have 2: "alg_coeffs (nat n) (einsum_j_jkl (nat n) x T) T = x"
  proof (rule nth_equalityI)
    show "length (alg_coeffs (nat n) (einsum_j_jkl (nat n) x T) T) = length x"
      using assms(4) by (simp add: T_def)
    fix K assume "K < length (alg_coeffs (nat n) (einsum_j_jkl (nat n) x T) T)"
    then have "K < nat (dim_N n)" by (simp add: T_def)
    then show "alg_coeffs (nat n) (einsum_j_jkl (nat n) x T) T ! K = x ! K"
      unfolding T_def by (rule coeffs_of_lin_comb[OF n0])
  qed
  show ?thesis using L 1 2 by simp
qed

theorem generators_orthogonal_witness:
  "\<exists>L. liegr_init 3 = Inr L \<and>
     mat_trace (matmul (mat_transpose (liegr_T L ! 0)) (liegr_T L ! 1)) = (if (0::nat) = 1 then 2 else 0) \<and>
     alg_coeffs (nat 3) (einsum_j_jkl (nat 3) [1, 2, 3] (liegr_T L)) (liegr_T L) = [1, 2, 3]"
  using generators_orthogonal[of 3 0 1 "[1, 2, 3]"] by (simp add: dim_N_eq)

section \<open>The generators are a basis of the antisymmetric matrices\<close>

lemma mat_neg_nth: "is_mat r c A \<Longrightarrow> a < r \<Longrightarrow> b < c \<Longrightarrow> mat_neg A ! a ! b = - A ! a ! b"
  by (simp add: mat_neg_def is_mat_length is_mat_nth)

lemma is_mat_mat_neg [simp]: "is_mat r c (mat_neg A) = is_mat r c A"
  by (simp add: is_mat_def mat_neg_def list_all_iff)

lemma antisymmetric_iff:
  assumes "is_mat m m A"
  shows "is_antisymmetric A \<longleftrightarrow> (\<forall>a<m. \<forall>b<m. A ! b ! a = - A ! a ! b)"
proof -
  have "is_antisymmetric A \<longleftrightarrow> (\<forall>a<m. \<forall>b<m. mat_transpose A ! a ! b = mat_neg A ! a ! b)"
    unfolding is_antisymmetric_def
    by (rule mat_eq_iff) (simp_all add: mat_transpose_square[OF assms] assms)
  then show ?thesis by (simp add: mat_transpose_square[OF assms] mat_neg_nth[OF assms])
qed

lemma unit_entry_swap: "unit_entry i j b a = unit_entry j i a b"
  by (simp add: unit_entry_def conj_commute)

lemma skew_unit_swap: "skew_unit i j b a = - skew_unit i j a b"
  by (simp add: skew_unit_def unit_entry_swap[of i j b a] unit_entry_swap[of j i b a])

lemma generator_antisymmetric:
  assumes "0 \<le> n" "int I < dim_N n"
  shows "is_antisymmetric (generator n I)"
  unfolding antisymmetric_iff[OF generator_shape[OF assms]]
proof (intro allI impI)
  fix a b assume a: "a < nat n" and b: "b < nat n"
  show "generator n I ! b ! a = - generator n I ! a ! b"
    unfolding generator_asym[OF assms b a] generator_asym[OF assms a b]
    by (simp add: skew_unit_swap[of _ _ b a])
qed

lemma the_pair_nat_iff:
  assumes n0: "0 \<le> n" and KN: "int K < dim_N n" and ab: "a < b" "b < nat n"
  shows "nat (fst (the_pair n K)) = a \<and> nat (snd (the_pair n K)) = b \<longleftrightarrow> K = nat (idx n (int a) (int b))"
proof -
  have v: "0 \<le> int a" "int a < int b" "int b < n" using ab by simp_all
  note p = the_pair_props[OF n0 KN]
  show ?thesis
  proof
    assume h: "nat (fst (the_pair n K)) = a \<and> nat (snd (the_pair n K)) = b"
    then have "fst (the_pair n K) = int a" "snd (the_pair n K) = int b" using p(2,3) by auto
    then have "idx n (int a) (int b) = int K" using p(5) by simp
    then show "K = nat (idx n (int a) (int b))" by simp
  next
    assume "K = nat (idx n (int a) (int b))"
    then have "the_pair n K = (int a, int b)" using the_pair_idx[OF v] by simp
    then show "nat (fst (the_pair n K)) = a \<and> nat (snd (the_pair n K)) = b" by simp
  qed
qed

lemma sum_over_pairs:
  assumes n0: "0 \<le> n" and ab: "a < b" "b < nat n"
  shows "(\<Sum>K<nat (dim_N n).
            if nat (fst (the_pair n K)) = a \<and> nat (snd (the_pair n K)) = b then f K else 0)
         = f (nat (idx n (int a) (int b)))"
proof -
  define K0 where "K0 = nat (idx n (int a) (int b))"
  have v: "0 \<le> int a" "int a < int b" "int b < n" using ab by simp_all
  have K0: "K0 < nat (dim_N n)" using idx_range[OF v] by (simp add: K0_def)
  have "(\<Sum>K<nat (dim_N n).
            if nat (fst (the_pair n K)) = a \<and> nat (snd (the_pair n K)) = b then f K else 0)
        = (\<Sum>K<nat (dim_N n). if K = K0 then f K0 else 0)"
    unfolding K0_def
    by (intro sum.cong refl) (simp add: the_pair_nat_iff[OF n0 _ ab])
  also have "\<dots> = f K0" using K0 by simp
  finally show ?thesis by (simp add: K0_def)
qed

lemma alg_coeffs_antisymmetric:
  assumes n0: "0 \<le> n" and KN: "int K < dim_N n"
    and anti: "\<And>a b. a < nat n \<Longrightarrow> b < nat n \<Longrightarrow> A ! b ! a = - A ! a ! b"
  shows "alg_coeffs (nat n) A (map (generator n) [0..<nat (dim_N n)]) ! K
         = gen_sign (fst (the_pair n K)) (snd (the_pair n K)) *
           A ! nat (fst (the_pair n K)) ! nat (snd (the_pair n K))"
proof -
  define x where "x = nat (fst (the_pair n K))"
  define y where "y = nat (snd (the_pair n K))"
  define s where "s = gen_sign (fst (the_pair n K)) (snd (the_pair n K))"
  have b: "x < y" "y < nat n" using the_pair_nat_bounds[OF n0 KN] by (simp_all add: x_def y_def)
  then have xm: "x < nat n" by simp
  have "(\<Sum>a<nat n. \<Sum>b<nat n. A ! a ! b * generator n K ! a ! b)
        = (\<Sum>a<nat n. \<Sum>b<nat n. skew_unit x y a b * (s * A ! a ! b))"
    by (intro sum.cong refl) (simp add: generator_asym[OF n0 KN] x_def y_def s_def)
  also have "\<dots> = s * A ! x ! y - s * A ! y ! x"
    using skew_unit_sum2[OF xm b(2), of "\<lambda>a b. s * A ! a ! b"] by simp
  also have "\<dots> = 2 * (s * A ! x ! y)" using anti[OF xm b(2)] by simp
  finally show ?thesis
    using KN by (simp add: alg_coeffs_nth x_def y_def s_def)
qed

lemma lin_comb_of_coeffs:
  assumes n0: "0 \<le> n" and sh: "is_mat (nat n) (nat n) A" and an: "is_antisymmetric A"
  shows "einsum_j_jkl (nat n) (alg_coeffs (nat n) A (map (generator n) [0..<nat (dim_N n)]))
           (map (generator n) [0..<nat (dim_N n)]) = A"
proof -
  define m where "m = nat n"
  define N where "N = nat (dim_N n)"
  define T where "T = map (generator n) [0..<N]"
  define px where "px = (\<lambda>K. nat (fst (the_pair n K)))"
  define py where "py = (\<lambda>K. nat (snd (the_pair n K)))"
  have "\<forall>a<nat n. \<forall>b<nat n. A ! b ! a = - A ! a ! b"
    using an by (simp only: antisymmetric_iff[OF sh])
  then have anti: "A ! b ! a = - A ! a ! b" if "a < m" "b < m" for a b
    using that unfolding m_def by blast
  have entry: "einsum_j_jkl m (alg_coeffs m A T) T ! a ! b
               = (\<Sum>K<N. A ! px K ! py K * skew_unit (px K) (py K) a b)"
    if ab: "a < m" "b < m" for a b
  proof -
    have "einsum_j_jkl m (alg_coeffs m A T) T ! a ! b
          = (\<Sum>K<N. alg_coeffs m A T ! K * generator n K ! a ! b)"
      unfolding T_def using ab by (rule lin_comb_nth)
    also have "\<dots> = (\<Sum>K<N. A ! px K ! py K * skew_unit (px K) (py K) a b)"
    proof (rule sum.cong[OF refl])
      fix K assume "K \<in> {..<N}"
      then have KN: "int K < dim_N n" by (simp add: N_def)
      have "alg_coeffs m A T ! K = gen_sign (fst (the_pair n K)) (snd (the_pair n K)) * A ! px K ! py K"
        unfolding m_def T_def N_def px_def py_def
        by (intro alg_coeffs_antisymmetric[OF n0 KN] anti) (simp_all add: m_def)
      moreover have "generator n K ! a ! b
          = gen_sign (fst (the_pair n K)) (snd (the_pair n K)) * skew_unit (px K) (py K) a b"
        unfolding px_def py_def using ab by (intro generator_asym[OF n0 KN]) (simp_all add: m_def)
      ultimately show "alg_coeffs m A T ! K * generator n K ! a ! b
                       = A ! px K ! py K * skew_unit (px K) (py K) a b"
        by (simp add: mult.assoc mult.left_commute)
    qed
    finally show ?thesis .
  qed
  have pb: "px K < py K" if "K < N" for K
    using the_pair_nat_bounds(1)[OF n0, of K] that by (simp add: N_def px_def py_def)
  have val: "einsum_j_jkl m (alg_coeffs m A T) T ! a ! b = A ! a ! b" if ab: "a < m" "b < m" for a b
  proof -
    consider "a < b" | "b < a" | "a = b" by linarith
    then show ?thesis
    proof cases
      case 1
      have "(\<Sum>K<N. A ! px K ! py K * skew_unit (px K) (py K) a b)
            = (\<Sum>K<N. if px K = a \<and> py K = b then A ! a ! b else 0)"
        by (intro sum.cong refl) (auto simp: skew_unit_upper[OF pb 1])
      also have "\<dots> = A ! a ! b"
        unfolding N_def px_def py_def using ab(2) 1
        by (subst sum_over_pairs[OF n0]) (simp_all add: m_def)
      finally show ?thesis using entry[OF ab] by simp
    next
      case 2
      have "(\<Sum>K<N. A ! px K ! py K * skew_unit (px K) (py K) a b)
            = (\<Sum>K<N. if px K = b \<and> py K = a then - A ! b ! a else 0)"
        by (intro sum.cong refl) (auto simp: skew_unit_lower[OF pb 2])
      also have "\<dots> = - A ! b ! a"
        unfolding N_def px_def py_def using ab(1) 2
        by (subst sum_over_pairs[OF n0]) (simp_all add: m_def)
      finally show ?thesis using entry[OF ab] anti[OF ab(2) ab(1)] by simp
    next
      case 3
      have "A ! a ! a = 0" using anti[OF ab(1) ab(1)] by simp
      then show ?thesis using entry[OF ab] 3 by simp
    qed
  qed
  have "einsum_j_jkl m (alg_coeffs m A T) T = mat m m (\<lambda>a b. A ! a ! b)"
    by (rule mat_eqI) (simp_all add: val, simp_all add: einsum_j_jkl_def)
  also have "\<dots> = A" using is_mat_eq_mat[OF sh] by (simp add: m_def)
  finally show ?thesis by (simp add: m_def T_def N_def)
qed

lemma alg_coeffs_zero:
  assumes "K < N"
  shows "alg_coeffs m (mat m m (\<lambda>a b. 0)) (map (generator n) [0..<N]) ! K = 0"
  using assms by (simp add: alg_coeffs_nth)

text \<open>
  Claim C4. For every \<open>n \<ge> 2\<close> the constructor builds exactly \<open>N = n(n-1)/2\<close> generators
  (one for \<open>n = 2\<close>), each an antisymmetric \<open>n \<times> n\<close> matrix. They are linearly
  independent: a combination \<open>\<Sum>\<^sub>I x\<^sub>I T\<^sub>I\<close> that is the zero matrix has all coefficients
  zero. They span the antisymmetric matrices: every antisymmetric \<open>n \<times> n\<close> matrix is such
  a combination.
\<close>

theorem generators_basis:
  assumes "2 \<le> n"
  shows "\<exists>L. liegr_init n = Inr L \<and> liegr_N L = n * (n - 1) div 2 \<and>
           (n = 2 \<longrightarrow> liegr_N L = 1) \<and> length (liegr_T L) = nat (liegr_N L) \<and>
           list_all (\<lambda>M. is_mat (nat n) (nat n) M \<and> is_antisymmetric M) (liegr_T L) \<and>
           (\<forall>x. length x = nat (liegr_N L) \<and>
                 einsum_j_jkl (nat n) x (liegr_T L) = mat (nat n) (nat n) (\<lambda>a b. 0)
                 \<longrightarrow> x = replicate (nat (liegr_N L)) 0) \<and>
           (\<forall>A. is_mat (nat n) (nat n) A \<and> is_antisymmetric A
                 \<longrightarrow> (\<exists>x. length x = nat (liegr_N L) \<and> einsum_j_jkl (nat n) x (liegr_T L) = A))"
proof -
  have n0: "0 \<le> n" using assms by simp
  define N where "N = nat (dim_N n)"
  define m where "m = nat n"
  define T where "T = map (generator n) [0..<N]"
  from liegr_init_ok[OF n0] obtain g where
    L: "liegr_init n = Inr \<lparr>liegr_N = dim_N n, liegr_n = n, liegr_T = T, liegr_gamma = g\<rparr>"
    unfolding T_def N_def by blast
  have 1: "dim_N n = n * (n - 1) div 2" by (rule dim_N_eq)
  have 2: "n = 2 \<longrightarrow> dim_N n = 1" by (simp add: dim_N_eq)
  have 3: "length T = nat (dim_N n)" by (simp add: T_def N_def)
  have 4: "list_all (\<lambda>M. is_mat m m M \<and> is_antisymmetric M) T"
    unfolding list_all_iff T_def m_def N_def
    using generator_shape[OF n0] generator_antisymmetric[OF n0] by auto
  have 5: "x = replicate N 0" if x: "length x = N" "einsum_j_jkl m x T = mat m m (\<lambda>a b. 0)" for x
  proof (rule nth_equalityI)
    show "length x = length (replicate N (0::real))" using x(1) by simp
    fix K assume "K < length x"
    then have K: "K < N" using x(1) by simp
    have "x ! K = alg_coeffs m (einsum_j_jkl m x T) T ! K"
      unfolding m_def T_def N_def using K by (intro coeffs_of_lin_comb[OF n0, symmetric]) (simp add: N_def)
    also have "\<dots> = alg_coeffs m (mat m m (\<lambda>a b. 0)) T ! K" by (simp only: x(2))
    also have "\<dots> = 0" unfolding T_def using K by (rule alg_coeffs_zero)
    finally show "x ! K = replicate N 0 ! K" using K by simp
  qed
  have 6: "\<exists>x. length x = N \<and> einsum_j_jkl m x T = A" if "is_mat m m A" "is_antisymmetric A" for A
  proof (intro exI conjI)
    show "length (alg_coeffs m A T) = N" by (simp add: T_def)
    show "einsum_j_jkl m (alg_coeffs m A T) T = A"
      using that unfolding m_def T_def N_def by (intro lin_comb_of_coeffs[OF n0])
  qed
  show ?thesis
    using L 1 2 3 4 5 6 unfolding N_def m_def by auto
qed

theorem generators_basis_witness:
  "\<exists>L. liegr_init 3 = Inr L \<and> liegr_N L = 3 \<and> length (liegr_T L) = 3 \<and>
     (\<exists>x. length x = 3 \<and>
        einsum_j_jkl 3 x (liegr_T L) = [[0, 1, 2], [- 1, 0, 3], [- 2, - 3, 0]])"
proof -
  have a: "is_mat 3 3 [[0, 1, 2], [- 1, 0, 3], [- 2, - 3, 0]]"
    by (simp add: is_mat_def)
  have b: "is_antisymmetric [[0, 1, 2], [- 1, 0, 3], [- 2, - 3, 0]]"
    by code_simp
  from generators_basis[of 3] a b show ?thesis by fastforce
qed

section \<open>Algebra of square matrices\<close>

lemma is_mat_matmul [simp]: "is_mat n n A \<Longrightarrow> is_mat n n B \<Longrightarrow> is_mat n n (matmul A B)"
  by (simp add: matmul_square)

lemma is_mat_transpose [simp]: "is_mat n n A \<Longrightarrow> is_mat n n (mat_transpose A)"
  by (simp add: mat_transpose_square)

lemma is_mat_eye [simp]: "is_mat n n (eye n)"
  by (simp add: eye_def)

lemma mat_add_eq: "is_mat r c A \<Longrightarrow> is_mat r c B \<Longrightarrow> mat_add A B = mat r c (\<lambda>a b. A ! a ! b + B ! a ! b)"
  using mat_add_mat[of r c "\<lambda>a b. A ! a ! b" "\<lambda>a b. B ! a ! b"] is_mat_eq_mat[of r c A] is_mat_eq_mat[of r c B]
  by simp

lemma mat_sub_eq: "is_mat r c A \<Longrightarrow> is_mat r c B \<Longrightarrow> mat_sub A B = mat r c (\<lambda>a b. A ! a ! b - B ! a ! b)"
  using mat_sub_mat[of r c "\<lambda>a b. A ! a ! b" "\<lambda>a b. B ! a ! b"] is_mat_eq_mat[of r c A] is_mat_eq_mat[of r c B]
  by simp

lemma mat_neg_eq: "is_mat r c A \<Longrightarrow> mat_neg A = mat r c (\<lambda>a b. - A ! a ! b)"
  using mat_neg_mat[of r c "\<lambda>a b. A ! a ! b"] is_mat_eq_mat[of r c A] by simp

lemma half_lr_eq: "is_mat r c A \<Longrightarrow> half_lr lr A = mat r c (\<lambda>a b. lr * A ! a ! b / 2)"
  by (rule mat_eqI) (simp_all add: half_lr_def is_mat_length is_mat_nth)

lemma is_mat_add [simp]: "is_mat r c A \<Longrightarrow> is_mat r c B \<Longrightarrow> is_mat r c (mat_add A B)"
  by (simp add: mat_add_eq)

lemma is_mat_sub [simp]: "is_mat r c A \<Longrightarrow> is_mat r c B \<Longrightarrow> is_mat r c (mat_sub A B)"
  by (simp add: mat_sub_eq)

lemma is_mat_half_lr [simp]: "is_mat r c A \<Longrightarrow> is_mat r c (half_lr lr A)"
  by (simp add: half_lr_eq)

lemma matmul_nth:
  "is_mat n n A \<Longrightarrow> is_mat n n B \<Longrightarrow> i < n \<Longrightarrow> j < n \<Longrightarrow> matmul A B ! i ! j = (\<Sum>k<n. A ! i ! k * B ! k ! j)"
  by (simp add: matmul_square)

lemma transpose_nth:
  "is_mat n n A \<Longrightarrow> i < n \<Longrightarrow> j < n \<Longrightarrow> mat_transpose A ! i ! j = A ! j ! i"
  by (simp add: mat_transpose_square)

lemma eye_nth: "i < n \<Longrightarrow> j < n \<Longrightarrow> eye n ! i ! j = (if i = j then 1 else 0)"
  by (simp add: eye_def)

lemma mat_add_nth: "is_mat r c A \<Longrightarrow> is_mat r c B \<Longrightarrow> a < r \<Longrightarrow> b < c \<Longrightarrow> mat_add A B ! a ! b = A ! a ! b + B ! a ! b"
  by (simp add: mat_add_eq)

lemma mat_sub_nth: "is_mat r c A \<Longrightarrow> is_mat r c B \<Longrightarrow> a < r \<Longrightarrow> b < c \<Longrightarrow> mat_sub A B ! a ! b = A ! a ! b - B ! a ! b"
  by (simp add: mat_sub_eq)

lemma half_lr_nth: "is_mat r c A \<Longrightarrow> a < r \<Longrightarrow> b < c \<Longrightarrow> half_lr lr A ! a ! b = lr * A ! a ! b / 2"
  by (simp add: half_lr_eq)

lemma mat_eqI2:
  assumes "is_mat r c A" "is_mat r c B" "\<And>a b. a < r \<Longrightarrow> b < c \<Longrightarrow> A ! a ! b = B ! a ! b"
  shows "A = B"
  using assms mat_eq_iff[OF assms(1,2)] by blast

lemma matmul_assoc:
  assumes "is_mat n n A" "is_mat n n B" "is_mat n n C"
  shows "matmul (matmul A B) C = matmul A (matmul B C)"
proof (rule mat_eqI2[where r = n and c = n])
  show "is_mat n n (matmul (matmul A B) C)" "is_mat n n (matmul A (matmul B C))"
    using assms by simp_all
  fix a b assume ab: "a < n" "b < n"
  have "matmul (matmul A B) C ! a ! b = (\<Sum>k<n. (\<Sum>l<n. A ! a ! l * B ! l ! k) * C ! k ! b)"
    using assms ab by (simp add: matmul_nth[where n = n])
  also have "\<dots> = (\<Sum>k<n. \<Sum>l<n. A ! a ! l * (B ! l ! k * C ! k ! b))"
    by (simp add: sum_distrib_right mult.assoc)
  also have "\<dots> = (\<Sum>l<n. \<Sum>k<n. A ! a ! l * (B ! l ! k * C ! k ! b))"
    by (rule sum.swap)
  also have "\<dots> = (\<Sum>l<n. A ! a ! l * (\<Sum>k<n. B ! l ! k * C ! k ! b))"
    by (simp add: sum_distrib_left)
  also have "\<dots> = matmul A (matmul B C) ! a ! b"
    using assms ab by (simp add: matmul_nth[where n = n])
  finally show "matmul (matmul A B) C ! a ! b = matmul A (matmul B C) ! a ! b" .
qed

lemma transpose_matmul:
  assumes "is_mat n n A" "is_mat n n B"
  shows "mat_transpose (matmul A B) = matmul (mat_transpose B) (mat_transpose A)"
proof (rule mat_eqI2[where r = n and c = n])
  show "is_mat n n (mat_transpose (matmul A B))" "is_mat n n (matmul (mat_transpose B) (mat_transpose A))"
    using assms by simp_all
  fix a b assume ab: "a < n" "b < n"
  show "mat_transpose (matmul A B) ! a ! b = matmul (mat_transpose B) (mat_transpose A) ! a ! b"
    using assms ab by (simp add: matmul_nth[where n = n] transpose_nth[where n = n] mult.commute)
qed

lemma transpose_eye [simp]: "mat_transpose (eye n) = eye n"
proof (rule mat_eqI2[where r = n and c = n])
  fix a b assume "a < n" "b < n"
  then show "mat_transpose (eye n) ! a ! b = eye n ! a ! b"
    by (auto simp: transpose_nth[where n = n] eye_nth)
qed simp_all

lemma matmul_eye_right [simp]:
  assumes "is_mat n n A"
  shows "matmul A (eye n) = A"
proof (rule mat_eqI2[where r = n and c = n])
  fix a b assume ab: "a < n" "b < n"
  have "matmul A (eye n) ! a ! b = (\<Sum>k<n. A ! a ! k * (if k = b then 1 else 0))"
    using assms ab by (simp add: matmul_nth[where n = n] eye_nth)
  also have "\<dots> = (\<Sum>k<n. if k = b then A ! a ! b else 0)"
    by (intro sum.cong refl) simp
  also have "\<dots> = A ! a ! b" using ab by simp
  finally show "matmul A (eye n) ! a ! b = A ! a ! b" .
qed (use assms in simp_all)

lemma matmul_eye_left [simp]:
  assumes "is_mat n n A"
  shows "matmul (eye n) A = A"
proof (rule mat_eqI2[where r = n and c = n])
  fix a b assume ab: "a < n" "b < n"
  have "matmul (eye n) A ! a ! b = (\<Sum>k<n. (if a = k then 1 else 0) * A ! k ! b)"
    using assms ab by (simp add: matmul_nth[where n = n] eye_nth)
  also have "\<dots> = (\<Sum>k<n. if k = a then A ! a ! b else 0)"
    by (intro sum.cong refl) simp
  also have "\<dots> = A ! a ! b" using ab by simp
  finally show "matmul (eye n) A ! a ! b = A ! a ! b" .
qed (use assms in simp_all)

section \<open>The Cayley update keeps a matrix orthogonal\<close>

lemma einsum_jk_jl_eq:
  assumes "is_mat n n A" "is_mat n n B"
  shows "einsum_jk_jl A B = matmul (mat_transpose A) B"
proof -
  have "einsum_jk_jl A B = mat n n (\<lambda>k l. \<Sum>j<n. A ! j ! k * B ! j ! l)"
    using assms by (simp add: einsum_jk_jl_def ncols_square is_mat_length)
  also have "\<dots> = matmul (mat_transpose A) B"
    using assms
    by (simp add: matmul_square[where n = n] mat_transpose_square[where n = n] cong: mat_cong)
  finally show ?thesis .
qed

lemma get_grads_eq:
  assumes "is_mat n n V" "is_mat n n G"
  shows "get_grads V G = mat_sub (matmul (mat_transpose V) G) (matmul (mat_transpose G) V)"
  by (simp add: get_grads_def einsum_jk_jl_eq[OF assms] einsum_jk_jl_eq[OF assms(2,1)])

lemma is_mat_get_grads:
  assumes "is_mat n n V" "is_mat n n G"
  shows "is_mat n n (get_grads V G)"
  using assms by (simp add: get_grads_eq[OF assms])

lemma get_grads_nth:
  assumes "is_mat n n V" "is_mat n n G" "a < n" "b < n"
  shows "get_grads V G ! a ! b = (\<Sum>j<n. V ! j ! a * G ! j ! b) - (\<Sum>j<n. G ! j ! a * V ! j ! b)"
  using assms
  by (simp add: get_grads_eq[OF assms(1,2)] mat_sub_nth[where r = n and c = n]
      matmul_nth[where n = n] transpose_nth[where n = n])

lemma get_grads_antisymmetric:
  assumes "is_mat n n V" "is_mat n n G"
  shows "is_antisymmetric (get_grads V G)"
  unfolding antisymmetric_iff[OF is_mat_get_grads[OF assms]]
  by (simp add: get_grads_nth[OF assms] mult.commute)

lemma antisymmetricD:
  assumes "is_mat n n S" "is_antisymmetric S" "a < n" "b < n"
  shows "S ! b ! a = - S ! a ! b"
proof -
  have "\<forall>a<n. \<forall>b<n. S ! b ! a = - S ! a ! b"
    using assms(2) by (simp only: antisymmetric_iff[OF assms(1)])
  then show ?thesis using assms(3,4) by blast
qed

lemma half_lr_antisymmetric:
  assumes "is_mat n n S" "is_antisymmetric S"
  shows "is_antisymmetric (half_lr lr S)"
  unfolding antisymmetric_iff[OF is_mat_half_lr[OF assms(1)]]
proof (intro allI impI)
  fix a b assume ab: "a < n" "b < n"
  show "half_lr lr S ! b ! a = - half_lr lr S ! a ! b"
    using assms(1) ab antisymmetricD[OF assms ab]
    by (simp add: half_lr_nth[where r = n and c = n])
qed

lemma sum_delta_left:
  fixes a n :: nat and f :: "nat \<Rightarrow> real"
  assumes a: "a < n"
  shows "(\<Sum>k<n. (if k = a then 1 else 0) * f k) = f a"
proof -
  have "(\<Sum>k<n. (if k = a then 1 else 0) * f k) = (\<Sum>k<n. if k = a then f a else 0)"
    by (intro sum.cong refl) simp
  then show ?thesis using a by simp
qed

lemma sum_delta_right:
  fixes a n :: nat and f :: "nat \<Rightarrow> real"
  assumes a: "a < n"
  shows "(\<Sum>k<n. f k * (if k = a then 1 else 0)) = f a"
  using sum_delta_left[OF a, of f] by (simp add: mult.commute)

lemma cayley_orthogonal:
  assumes H: "is_mat n n H" and an: "is_antisymmetric H"
    and Q: "is_mat n n Q" and inv: "matmul (mat_add (eye n) H) Q = eye n"
  shows "is_orthogonal n (matmul (mat_sub (eye n) H) Q)"
proof -
  define P where "P = mat_add (eye n) H"
  define M where "M = mat_sub (eye n) H"
  have anti: "H ! b ! a = - H ! a ! b" if "a < n" "b < n" for a b
  proof -
    have "\<forall>a<n. \<forall>b<n. H ! b ! a = - H ! a ! b"
      using an by (simp only: antisymmetric_iff[OF H])
    then show ?thesis using that by blast
  qed
  have sh: "is_mat n n P" "is_mat n n M" using H by (simp_all add: P_def M_def)
  have tM: "mat_transpose M = P"
  proof (rule mat_eqI2[where r = n and c = n])
    fix a b assume ab: "a < n" "b < n"
    show "mat_transpose M ! a ! b = P ! a ! b"
      using H ab sh anti[OF ab(2) ab(1)]
      by (auto simp add: transpose_nth[where n = n] M_def P_def
          mat_sub_nth[where r = n and c = n] mat_add_nth[where r = n and c = n] eye_nth)
  qed (use sh in simp_all)
  have tP: "mat_transpose P = M"
  proof (rule mat_eqI2[where r = n and c = n])
    fix a b assume ab: "a < n" "b < n"
    show "mat_transpose P ! a ! b = M ! a ! b"
      using H ab sh anti[OF ab(2) ab(1)]
      by (auto simp add: transpose_nth[where n = n] M_def P_def
          mat_sub_nth[where r = n and c = n] mat_add_nth[where r = n and c = n] eye_nth)
  qed (use sh in simp_all)
  have comm: "matmul P M = matmul M P"
  proof (rule mat_eqI2[where r = n and c = n])
    fix a b assume ab: "a < n" "b < n"
    have e: "eye n ! a ! k = (if k = a then 1 else 0)" "eye n ! k ! b = (if k = b then 1 else 0)"
      if "k < n" for k using that ab by (auto simp: eye_nth)
    have "matmul P M ! a ! b
          = (\<Sum>k<n. ((if k = a then 1 else 0) + H ! a ! k) * ((if k = b then 1 else 0) - H ! k ! b))"
      using H ab sh
      by (simp add: matmul_nth[where n = n] M_def P_def
          mat_sub_nth[where r = n and c = n] mat_add_nth[where r = n and c = n] e)
    also have "\<dots> = (\<Sum>k<n. (if k = a then 1 else 0) * (if k = b then 1 else 0))
                     - (\<Sum>k<n. (if k = a then 1 else 0) * H ! k ! b)
                     + (\<Sum>k<n. H ! a ! k * (if k = b then 1 else 0))
                     - (\<Sum>k<n. H ! a ! k * H ! k ! b)"
      by (simp add: algebra_simps sum.distrib sum_subtractf)
    also have "\<dots> = (\<Sum>k<n. (if k = a then 1 else 0) * (if k = b then 1 else 0))
                     + (\<Sum>k<n. (if k = a then 1 else 0) * H ! k ! b)
                     - (\<Sum>k<n. H ! a ! k * (if k = b then 1 else 0))
                     - (\<Sum>k<n. H ! a ! k * H ! k ! b)"
      using ab by (simp only: sum_delta_left[of a n "\<lambda>k. H ! k ! b"] sum_delta_right[of b n "\<lambda>k. H ! a ! k"])
    also have "\<dots> = (\<Sum>k<n. ((if k = a then 1 else 0) - H ! a ! k) * ((if k = b then 1 else 0) + H ! k ! b))"
      by (simp add: algebra_simps sum.distrib sum_subtractf)
    also have "\<dots> = matmul M P ! a ! b"
      using H ab sh
      by (simp add: matmul_nth[where n = n] M_def P_def
          mat_sub_nth[where r = n and c = n] mat_add_nth[where r = n and c = n] e)
    finally show "matmul P M ! a ! b = matmul M P ! a ! b" .
  qed (use sh in simp_all)
  have PQ: "matmul P Q = eye n" using inv by (simp add: P_def)
  have tQ: "is_mat n n (mat_transpose Q)" using Q by simp
  have "matmul (mat_transpose (matmul M Q)) (matmul M Q)
        = matmul (matmul (mat_transpose Q) P) (matmul M Q)"
    by (simp add: transpose_matmul[OF sh(2) Q] tM)
  also have "\<dots> = matmul (mat_transpose Q) (matmul P (matmul M Q))"
    using sh Q tQ by (intro matmul_assoc[where n = n]) simp_all
  also have "matmul P (matmul M Q) = matmul (matmul P M) Q"
    using sh Q by (intro matmul_assoc[where n = n, symmetric])
  also have "\<dots> = matmul (matmul M P) Q" by (simp only: comm)
  also have "\<dots> = matmul M (matmul P Q)" using sh Q by (intro matmul_assoc[where n = n])
  also have "\<dots> = M" using sh by (simp add: PQ)
  also have "matmul (mat_transpose Q) M = mat_transpose (matmul P Q)"
    by (simp add: transpose_matmul[OF sh(1) Q] tP)
  also have "\<dots> = eye n" by (simp add: PQ)
  finally have "matmul (mat_transpose (matmul M Q)) (matmul M Q) = eye n" .
  then show ?thesis using sh Q by (simp add: is_orthogonal_def M_def)
qed

lemma orthogonal_matmul:
  assumes "is_orthogonal n V" "is_orthogonal n M"
  shows "is_orthogonal n (matmul V M)"
proof -
  have sh: "is_mat n n V" "is_mat n n M" using assms by (simp_all add: is_orthogonal_def)
  have tV: "is_mat n n (mat_transpose V)" and tM: "is_mat n n (mat_transpose M)" using sh by simp_all
  have "matmul (mat_transpose (matmul V M)) (matmul V M)
        = matmul (matmul (mat_transpose M) (mat_transpose V)) (matmul V M)"
    by (simp add: transpose_matmul[OF sh])
  also have "\<dots> = matmul (mat_transpose M) (matmul (mat_transpose V) (matmul V M))"
    using sh tV tM by (intro matmul_assoc[where n = n]) simp_all
  also have "matmul (mat_transpose V) (matmul V M) = matmul (matmul (mat_transpose V) V) M"
    using sh tV by (intro matmul_assoc[where n = n, symmetric])
  also have "\<dots> = M" using assms(1) sh by (simp add: is_orthogonal_def)
  also have "matmul (mat_transpose M) M = eye n" using assms(2) by (simp add: is_orthogonal_def)
  finally show ?thesis using sh by (simp add: is_orthogonal_def)
qed

text \<open>
  Claim C2. Let \<open>V\<close> be an orthogonal \<open>n \<times> n\<close> matrix and \<open>G\<close> an \<open>n \<times> n\<close> gradient. The
  matrix \<open>skew = V\<^sup>T G - G\<^sup>T V\<close> that \<^verbatim>\<open>get_grads\<close> computes is antisymmetric. If the
  inverse that \<^verbatim>\<open>apply_grads\<close> asks for exists, that is, the library returns a \<open>Q\<close> with
  \<open>(I + (lr/2) skew) Q = I\<close>, then the update \<open>V (I - (lr/2) skew) Q\<close> is returned and is
  orthogonal, for every learning rate \<open>lr\<close>.
\<close>

theorem cayley_update_orthogonal:
  assumes V: "is_orthogonal n V" and G: "is_mat n n G"
    and inv: "matrix_inverse (mat_add (eye n) (half_lr lr (get_grads V G))) = Inr Q"
    and Q: "is_mat n n Q" "matmul (mat_add (eye n) (half_lr lr (get_grads V G))) Q = eye n"
  shows "get_grads V G = mat_sub (matmul (mat_transpose V) G) (matmul (mat_transpose G) V) \<and>
         is_antisymmetric (get_grads V G) \<and>
         minimize lr matrix_inverse n V G
           = Inr (matmul V (matmul (mat_sub (eye n) (half_lr lr (get_grads V G))) Q)) \<and>
         is_orthogonal n (matmul V (matmul (mat_sub (eye n) (half_lr lr (get_grads V G))) Q))"
proof -
  have sV: "is_mat n n V" using V by (simp add: is_orthogonal_def)
  define S where "S = get_grads V G"
  have sS: "is_mat n n S" unfolding S_def by (rule is_mat_get_grads[OF sV G])
  have aS: "is_antisymmetric S" unfolding S_def by (rule get_grads_antisymmetric[OF sV G])
  have 1: "S = mat_sub (matmul (mat_transpose V) G) (matmul (mat_transpose G) V)"
    unfolding S_def by (rule get_grads_eq[OF sV G])
  have 3: "minimize lr matrix_inverse n V G
           = Inr (matmul V (matmul (mat_sub (eye n) (half_lr lr S)) Q))"
    using inv by (simp add: minimize_def apply_grads_def S_def Let_def)
  have "is_orthogonal n (matmul (mat_sub (eye n) (half_lr lr S)) Q)"
  proof (rule cayley_orthogonal)
    show "is_mat n n (half_lr lr S)" using sS by simp
    show "is_antisymmetric (half_lr lr S)" by (rule half_lr_antisymmetric[OF sS aS])
    show "is_mat n n Q" by (rule Q(1))
    show "matmul (mat_add (eye n) (half_lr lr S)) Q = eye n" using Q(2) by (simp only: S_def)
  qed
  then have 4: "is_orthogonal n (matmul V (matmul (mat_sub (eye n) (half_lr lr S)) Q))"
    by (rule orthogonal_matmul[OF V])
  show ?thesis using 1 aS 3 4 unfolding S_def by simp
qed

theorem cayley_update_orthogonal_witness:
  "minimize 2 (\<lambda>P. Inr [[1 / 2, - 1 / 2], [1 / 2, 1 / 2]]) 2 [[1, 0], [0, 1]] [[0, 1], [0, 0]]
     = Inr [[0, - 1], [1, 0]] \<and>
   is_orthogonal 2 [[0, - 1], [1, 0]]"
proof -
  have a: "is_orthogonal 2 [[1, 0], [0, 1]]" by code_simp
  have b: "is_mat 2 2 [[0, 1], [0, 0]]" by code_simp
  have c: "is_mat 2 2 [[1 / 2, - 1 / 2], [1 / 2, 1 / 2]]" by code_simp
  have d: "matmul (mat_add (eye 2) (half_lr 2 (get_grads [[1, 0], [0, 1]] [[0, 1], [0, 0]])))
             [[1 / 2, - 1 / 2], [1 / 2, 1 / 2]] = eye 2"
    by code_simp
  have e: "matmul [[1, 0], [0, 1]]
             (matmul (mat_sub (eye 2) (half_lr 2 (get_grads [[1, 0], [0, 1]] [[0, 1], [0, 0]])))
                [[1 / 2, - 1 / 2], [1 / 2, 1 / 2]]) = [[0, - 1], [1, 0]]"
    by code_simp
  from cayley_update_orthogonal[of 2 "[[1, 0], [0, 1]]" "[[0, 1], [0, 0]]"
      "\<lambda>P. Inr [[1 / 2, - 1 / 2], [1 / 2, 1 / 2]]" 2 "[[1 / 2, - 1 / 2], [1 / 2, 1 / 2]]", OF a b refl c d]
  show ?thesis unfolding e by simp
qed

end
